theory Spec2Isabelle
  imports Complex_Main "HOL-Library.AList" "HOL-Library.Multiset"
begin

section \<open>Python values, errors and randomness\<close>

text \<open>
  Every exception the modelled code can raise is a value; a call returns
  \<open>Inl err\<close> where the Python raises and \<open>Inr result\<close> where it returns.
\<close>

datatype py_error = IndexError | KeyError | ZeroDivisionError | ValueError

text \<open>
  Stations are strings read from the CSV files, an edge is a 2-tuple of stations.
  Where the source compares values of different Python types with \<open>==\<close> (through
  \<open>in\<close>), both sides are injected into \<open>pyval\<close>, on which equality is Python's:
  a \<open>str\<close> never equals a \<open>tuple\<close>.
\<close>

type_synonym node = string
type_synonym edge = "node \<times> node"

datatype pyval = PyStr string | PyTuple "pyval list"

definition node_val :: "node \<Rightarrow> pyval" where
  "node_val n = PyStr n"

definition edge_val :: "edge \<Rightarrow> pyval" where
  "edge_val e = PyTuple [PyStr (fst e), PyStr (snd e)]"

text \<open>
  The module \<open>random\<close> is a source of draws: an infinite sequence of naturals, of
  which \<open>random.choice\<close> consumes the first to index its argument. Nothing is assumed
  about the sequence, so a statement for all sequences holds for every outcome of
  the random choices. \<open>random.choice\<close> of an empty sequence raises \<open>IndexError\<close>.
\<close>

type_synonym rng = "nat \<Rightarrow> nat"

definition advance :: "rng \<Rightarrow> rng" where
  "advance rs = (\<lambda>i. rs (Suc i))"

definition random_choice :: "'a list \<Rightarrow> rng \<Rightarrow> py_error + ('a \<times> rng)" where
  "random_choice xs rs =
     (if xs = [] then Inl IndexError
      else Inr (xs ! (rs 0 mod length xs), advance rs))"

section \<open>The networkx graph\<close>

text \<open>
  \<open>networkx.Graph\<close> is a dictionary from each node to the dictionary of its
  neighbours with the edge attributes; dictionaries keep insertion order, and an
  undirected edge is stored under both endpoints. The attributes \<open>pos\<close>, \<open>size\<close>
  and \<open>visited\<close> are read by the plotting code only and are left out.
\<close>

record edge_data =
  weight :: int
  color :: string

type_synonym nx_graph = "(node \<times> (node \<times> edge_data) list) list"

definition nx_add_node :: "node \<Rightarrow> nx_graph \<Rightarrow> nx_graph" where
  "nx_add_node n adj = (if n \<in> fst ` set adj then adj else adj @ [(n, [])])"

definition nx_set_adj :: "node \<Rightarrow> node \<Rightarrow> edge_data \<Rightarrow> nx_graph \<Rightarrow> nx_graph" where
  "nx_set_adj u v d adj =
     map (\<lambda>(n, nbrs). if n = u then (n, AList.update v d nbrs) else (n, nbrs)) adj"

definition nx_add_edge :: "node \<Rightarrow> node \<Rightarrow> edge_data \<Rightarrow> nx_graph \<Rightarrow> nx_graph" where
  "nx_add_edge u v d adj =
     nx_set_adj v u d (nx_set_adj u v d (nx_add_node v (nx_add_node u adj)))"

text \<open>\<open>list(G[n])\<close>: the neighbours of \<open>n\<close>, \<open>KeyError\<close> when \<open>n\<close> is no node.\<close>

definition nx_neighbors :: "nx_graph \<Rightarrow> node \<Rightarrow> py_error + node list" where
  "nx_neighbors adj n =
     (case map_of adj n of None \<Rightarrow> Inl KeyError | Some nbrs \<Rightarrow> Inr (map fst nbrs))"

text \<open>\<open>G[u][v]['weight']\<close>.\<close>

definition nx_weight :: "nx_graph \<Rightarrow> node \<Rightarrow> node \<Rightarrow> py_error + int" where
  "nx_weight adj u v =
     (case map_of adj u of
        None \<Rightarrow> Inl KeyError
      | Some nbrs \<Rightarrow>
          (case map_of nbrs v of None \<Rightarrow> Inl KeyError | Some d \<Rightarrow> Inr (weight d)))"

text \<open>
  \<open>G.edges(data=True)\<close>: every node in order, each of its neighbours that has not
  been a source yet.
\<close>

fun nx_edges_data :: "node list \<Rightarrow> nx_graph \<Rightarrow> (edge \<times> edge_data) list" where
  "nx_edges_data seen [] = []"
| "nx_edges_data seen ((n, nbrs) # adj) =
     map (\<lambda>(nbr, d). ((n, nbr), d)) (filter (\<lambda>(nbr, d). nbr \<notin> set seen) nbrs)
     @ nx_edges_data (n # seen) adj"

definition nx_edges :: "nx_graph \<Rightarrow> edge list" where
  "nx_edges adj = map fst (nx_edges_data [] adj)"

section \<open>Graph (classes/graph\_class.py)\<close>

record graph =
  G :: nx_graph
  critical_station_list :: "node list"
  nodes :: "node list"
  edges :: "edge list"
  critical_edge_list :: "edge list"

text \<open>
  A row of the node file is its station and its category (the coordinates only
  reach \<open>pos\<close>), a row of the edge file two stations and the weight, already
  converted by \<open>int\<close>.
\<close>

type_synonym node_row = "node \<times> string"
type_synonym edge_row = "node \<times> node \<times> int"

fun add_csv_nodes :: "node_row list \<Rightarrow> nx_graph \<Rightarrow> node list \<Rightarrow> nx_graph \<times> node list" where
  "add_csv_nodes [] adj crit = (adj, crit)"
| "add_csv_nodes ((station, category) # rows) adj crit =
     (if category = ''Critical''
      then add_csv_nodes rows (nx_add_node station adj) (crit @ [station])
      else add_csv_nodes rows (nx_add_node station adj) crit)"

fun add_csv_edges :: "node list \<Rightarrow> edge_row list \<Rightarrow> nx_graph \<Rightarrow> nx_graph" where
  "add_csv_edges crit [] adj = adj"
| "add_csv_edges crit ((station_0, station_1, w) # rows) adj =
     (if station_0 \<in> set crit \<or> station_1 \<in> set crit
      then add_csv_edges crit rows
             (nx_add_edge station_0 station_1 \<lparr>weight = w, color = ''r''\<rparr> adj)
      else add_csv_edges crit rows
             (nx_add_edge station_0 station_1 \<lparr>weight = w, color = ''k''\<rparr> adj))"

definition Graph_init :: "node_row list \<Rightarrow> edge_row list \<Rightarrow> graph" where
  "Graph_init node_file edge_file =
     (let (adj0, crit) = add_csv_nodes node_file [] [];
          adj = add_csv_edges crit edge_file adj0
      in \<lparr>G = adj,
          critical_station_list = crit,
          nodes = map fst adj,
          edges = nx_edges adj,
          critical_edge_list =
            map fst (filter (\<lambda>(e, d). color d = ''r'') (nx_edges_data [] adj))\<rparr>)"

section \<open>Track (classes/track\_class.py)\<close>

record track =
  track_edges :: "edge list"
  necessary :: bool
  time :: int

text \<open>
  The constructor sets \<open>time\<close> through \<open>get_time\<close>, whose loop over
  \<open>range(len(self.edges) - 1)\<close> is empty for the empty edge list: the time is 0.
  The reference \<open>self.G\<close> is the graph's, passed to each method here.
\<close>

definition Track_init :: "graph \<Rightarrow> track" where
  "Track_init g = \<lparr>track_edges = [], necessary = True, time = 0\<rparr>"

text \<open>The loop of \<open>update_time\<close>, from \<open>self.time = acc\<close> on.\<close>

fun sum_weights :: "nx_graph \<Rightarrow> edge list \<Rightarrow> int \<Rightarrow> py_error + int" where
  "sum_weights adj [] acc = Inr acc"
| "sum_weights adj ((station_0, station_1) # es) acc =
     (case nx_weight adj station_0 station_1 of
        Inl err \<Rightarrow> Inl err
      | Inr w \<Rightarrow> sum_weights adj es (acc + w))"

definition update_time :: "graph \<Rightarrow> track \<Rightarrow> py_error + track" where
  "update_time g t =
     (case sum_weights (G g) (track_edges t) 0 of
        Inl err \<Rightarrow> Inl err
      | Inr tm \<Rightarrow> Inr (t\<lparr>time := tm\<rparr>))"

text \<open>
  \<open>add_edge\<close> returns \<open>None\<close> on both branches; what the caller can observe is
  the track and what was printed.
\<close>

definition contiguity_message :: string where
  "contiguity_message =
     ''Error: Can't add edge because the departing station of the new edge             doesn't match the arriving station of the last edge.''"

definition add_edge :: "graph \<Rightarrow> track \<Rightarrow> edge \<Rightarrow> py_error + (track \<times> string list)" where
  "add_edge g t e =
     (if track_edges t = [] \<or> snd (last (track_edges t)) = fst e
      then (case update_time g (t\<lparr>track_edges := track_edges t @ [e]\<rparr>) of
              Inl err \<Rightarrow> Inl err
            | Inr t' \<Rightarrow> Inr (t', []))
      else Inr (t, [contiguity_message]))"

definition add_edge_list :: "graph \<Rightarrow> track \<Rightarrow> edge list \<Rightarrow> py_error + track" where
  "add_edge_list g t edge_list = update_time g (t\<lparr>track_edges := edge_list\<rparr>)"

text \<open>\<open>self.edges[:-1]\<close> of the empty list is the empty list.\<close>

definition remove_last_edge :: "graph \<Rightarrow> track \<Rightarrow> py_error + track" where
  "remove_last_edge g t = update_time g (t\<lparr>track_edges := butlast (track_edges t)\<rparr>)"

section \<open>Helpers (helpers.py)\<close>

text \<open>
  Python's \<open>/\<close> is the division of floats; it is modelled by the division of
  reals, exact where the float is rounded. Division by zero raises.
\<close>

definition get_percentage_critical_edges_traversed ::
  "edge list \<Rightarrow> edge list \<Rightarrow> py_error + real" where
  "get_percentage_critical_edges_traversed critical_edges_traversed all_critical_edges =
     (if length all_critical_edges = 0 then Inl ZeroDivisionError
      else Inr (real (length critical_edges_traversed) / real (length all_critical_edges)))"

definition get_score :: "real \<Rightarrow> nat \<Rightarrow> int \<Rightarrow> real" where
  "get_score percen track_amount total_track_time =
     percen * 10000 - (real track_amount * 20 + real_of_int total_track_time / 100000)"

section \<open>Service (classes/service\_class.py)\<close>

record service =
  tracks :: "track list"
  all_critical_edges :: "edge list"
  critical_edges_traversed :: "edge list"
  service_time :: int
  percen_critical_edges_traversed :: real
  score :: real

definition Service_init :: "graph \<Rightarrow> service" where
  "Service_init g =
     \<lparr>tracks = [],
      all_critical_edges = critical_edge_list g,
      critical_edges_traversed = [],
      service_time = 0,
      percen_critical_edges_traversed = 0,
      score = 0\<rparr>"

text \<open>The loop of \<open>add_traversed_critical_edge\<close> over the track's edges.\<close>

fun traversed_critical :: "edge list \<Rightarrow> edge list \<Rightarrow> edge list \<Rightarrow> edge list" where
  "traversed_critical crit [] traversed = traversed"
| "traversed_critical crit (e # es) traversed =
     (if e \<in> set crit \<or> (snd e, fst e) \<in> set crit
      then (if e \<notin> set traversed \<and> (snd e, fst e) \<notin> set traversed
            then traversed_critical crit es (traversed @ [e])
            else traversed_critical crit es traversed)
      else traversed_critical crit es traversed)"

definition add_traversed_critical_edge :: "service \<Rightarrow> track \<Rightarrow> service" where
  "add_traversed_critical_edge s t =
     s\<lparr>critical_edges_traversed :=
         traversed_critical (all_critical_edges s) (track_edges t) (critical_edges_traversed s)\<rparr>"

definition remove_traversed_critical_edge :: "service \<Rightarrow> service" where
  "remove_traversed_critical_edge s =
     fold (\<lambda>t s'. add_traversed_critical_edge s' t) (tracks s)
       (s\<lparr>critical_edges_traversed := []\<rparr>)"

definition update_scores :: "service \<Rightarrow> py_error + service" where
  "update_scores s =
     (case get_percentage_critical_edges_traversed
             (critical_edges_traversed s) (all_critical_edges s) of
        Inl err \<Rightarrow> Inl err
      | Inr p \<Rightarrow>
          Inr (s\<lparr>percen_critical_edges_traversed := p,
                 score := get_score p (length (tracks s)) (service_time s)\<rparr>))"

definition add_track :: "service \<Rightarrow> track \<Rightarrow> py_error + service" where
  "add_track s t =
     (let s1 = s\<lparr>tracks := tracks s @ [t]\<rparr>;
          s2 = add_traversed_critical_edge s1 t;
          s3 = s2\<lparr>service_time := service_time s2 + time t\<rparr>
      in update_scores s3)"

text \<open>
  \<open>list.remove\<close> deletes the first element equal to its argument and raises
  \<open>ValueError\<close> when there is none. \<open>Track\<close> defines no \<open>__eq__\<close>, so a
  track equals only itself: the argument is found by identity, whatever the values
  of its attributes. The elements of \<open>service.tracks\<close> are distinct objects, and
  the track that is passed is identified by its position \<open>k\<close> in that list; a
  position beyond the list stands for a track that is no element of it.
\<close>

definition remove_track :: "service \<Rightarrow> nat \<Rightarrow> py_error + service" where
  "remove_track s k =
     (if length (tracks s) \<le> k then Inl ValueError
      else
        (let t = tracks s ! k;
             s1 = s\<lparr>tracks := take k (tracks s) @ drop (Suc k) (tracks s)\<rparr>;
             s2 = remove_traversed_critical_edge s1;
             s3 = s2\<lparr>service_time := service_time s2 - time t\<rparr>
         in update_scores s3))"

section \<open>The generator (hierholzer\_variation.py)\<close>

subsection \<open>Seed selection\<close>

text \<open>
  \<open>collections.Counter\<close> of a list: a dictionary from each element to the number
  of its occurrences, in the order of first occurrence.
\<close>

definition Counter :: "'a list \<Rightarrow> ('a \<times> nat) list" where
  "Counter xs =
     fold (\<lambda>x c. AList.update x (case map_of c x of None \<Rightarrow> 1 | Some k \<Rightarrow> Suc k) c) xs []"

definition nodes_with_one_edge :: "edge list \<Rightarrow> node list" where
  "nodes_with_one_edge untraversed_edges =
     map fst (filter (\<lambda>(n, count). count = 1)
       (Counter (concat (map (\<lambda>e. [fst e, snd e]) untraversed_edges))))"

text \<open>
  The test \<open>node in service.all_critical_edges\<close> looks a station up in a list of
  edges.
\<close>

definition nodes_with_one_edge_and_critical_neighbor :: "edge list \<Rightarrow> service \<Rightarrow> node list" where
  "nodes_with_one_edge_and_critical_neighbor untraversed_edges s =
     filter (\<lambda>n. node_val n \<in> set (map edge_val (all_critical_edges s)))
       (nodes_with_one_edge untraversed_edges)"

definition get_one_edge_node ::
  "edge list \<Rightarrow> graph \<Rightarrow> service \<Rightarrow> rng \<Rightarrow> py_error + (node \<times> rng)" where
  "get_one_edge_node untraversed_edges g s rs =
     (if nodes_with_one_edge_and_critical_neighbor untraversed_edges s \<noteq> []
      then random_choice (nodes_with_one_edge_and_critical_neighbor untraversed_edges s) rs
      else if nodes_with_one_edge untraversed_edges \<noteq> []
      then random_choice (nodes_with_one_edge untraversed_edges) rs
      else random_choice (nodes g) rs)"

subsection \<open>Neighbour selection\<close>

text \<open>
  The loop draws a neighbour of the current node until one is joined to it by an
  untraversed edge. It has no bound, so the function is partial: \<open>None\<close> is the
  run that never returns.
\<close>

partial_function (option) get_neighbour_with_untraversed_edge ::
  "edge list \<Rightarrow> graph \<Rightarrow> node \<Rightarrow> rng \<Rightarrow> (py_error + (node \<times> rng)) option" where
  "get_neighbour_with_untraversed_edge untraversed_edges g current_node rs =
     (case nx_neighbors (G g) current_node of
        Inl err \<Rightarrow> Some (Inl err)
      | Inr nbrs \<Rightarrow>
          (case random_choice nbrs rs of
             Inl err \<Rightarrow> Some (Inl err)
           | Inr (random_neighbor_node, rs') \<Rightarrow>
               if (current_node, random_neighbor_node) \<notin> set untraversed_edges
                  \<and> (random_neighbor_node, current_node) \<notin> set untraversed_edges
               then get_neighbour_with_untraversed_edge untraversed_edges g current_node rs'
               else Some (Inr (random_neighbor_node, rs'))))"

subsection \<open>Overflow correction\<close>

definition edge_again_untraversed ::
  "graph \<Rightarrow> track \<Rightarrow> edge list \<Rightarrow> py_error + (track \<times> edge list)" where
  "edge_again_untraversed g t untraversed_edges =
     (if track_edges t = [] then Inl IndexError
      else (case remove_last_edge g t of
              Inl err \<Rightarrow> Inl err
            | Inr t' \<Rightarrow> Inr (t', untraversed_edges @ [last (track_edges t)])))"

subsection \<open>The walk\<close>

text \<open>The two \<open>remove\<close> branches of the walk: the edge in either orientation.\<close>

definition remove_traversed :: "node \<Rightarrow> node \<Rightarrow> edge list \<Rightarrow> edge list" where
  "remove_traversed current_node random_neighbor_node untraversed_edges =
     (if (current_node, random_neighbor_node) \<in> set untraversed_edges
      then remove1 (current_node, random_neighbor_node) untraversed_edges
      else if (random_neighbor_node, current_node) \<in> set untraversed_edges
      then remove1 (random_neighbor_node, current_node) untraversed_edges
      else untraversed_edges)"

text \<open>
  The inner \<open>while True\<close> of \<open>algo\<close>, from a service, a pool, the track under
  construction and the current node to the service and pool at its \<open>break\<close>.
\<close>

partial_function (option) walk ::
  "graph \<Rightarrow> int \<Rightarrow> service \<Rightarrow> edge list \<Rightarrow> track \<Rightarrow> node \<Rightarrow> rng
     \<Rightarrow> (py_error + (service \<times> edge list \<times> rng)) option" where
  "walk g max_track_length s untraversed_edges t current_node rs =
     (if filter (\<lambda>e. current_node = fst e \<or> current_node = snd e) untraversed_edges = []
      then
        (case (if time t > max_track_length
               then edge_again_untraversed g t untraversed_edges
               else Inr (t, untraversed_edges)) of
           Inl err \<Rightarrow> Some (Inl err)
         | Inr (t', pool') \<Rightarrow>
             (case add_track s t' of
                Inl err \<Rightarrow> Some (Inl err)
              | Inr s' \<Rightarrow> Some (Inr (s', pool', rs))))
      else if time t > max_track_length
      then
        (case edge_again_untraversed g t untraversed_edges of
           Inl err \<Rightarrow> Some (Inl err)
         | Inr (t', pool') \<Rightarrow>
             (case add_track s t' of
                Inl err \<Rightarrow> Some (Inl err)
              | Inr s' \<Rightarrow> walk g max_track_length s' pool' (Track_init g) current_node rs))
      else
        (case get_neighbour_with_untraversed_edge untraversed_edges g current_node rs of
           None \<Rightarrow> None
         | Some (Inl err) \<Rightarrow> Some (Inl err)
         | Some (Inr (random_neighbor_node, rs')) \<Rightarrow>
             (case add_edge g t (current_node, random_neighbor_node) of
                Inl err \<Rightarrow> Some (Inl err)
              | Inr (t', printed) \<Rightarrow>
                  walk g max_track_length s
                    (remove_traversed current_node random_neighbor_node untraversed_edges)
                    t' random_neighbor_node rs')))"

text \<open>The outer \<open>while\<close>: one seed and one walk for each pass.\<close>

partial_function (option) build_tracks ::
  "graph \<Rightarrow> int \<Rightarrow> int \<Rightarrow> service \<Rightarrow> edge list \<Rightarrow> rng
     \<Rightarrow> (py_error + (service \<times> edge list \<times> rng)) option" where
  "build_tracks g max_track_amount max_track_length s untraversed_edges rs =
     (if untraversed_edges \<noteq> [] \<and> int (length (tracks s)) < max_track_amount
      then
        (case get_one_edge_node untraversed_edges g s rs of
           Inl err \<Rightarrow> Some (Inl err)
         | Inr (current_node, rs') \<Rightarrow>
             (case walk g max_track_length s untraversed_edges (Track_init g) current_node rs' of
                None \<Rightarrow> None
              | Some (Inl err) \<Rightarrow> Some (Inl err)
              | Some (Inr (s', pool', rs'')) \<Rightarrow>
                  build_tracks g max_track_amount max_track_length s' pool' rs''))
      else Some (Inr (s, untraversed_edges, rs)))"

subsection \<open>Prune pass\<close>

definition remove_unnecessary_tracks :: "service \<Rightarrow> graph \<Rightarrow> service" where
  "remove_unnecessary_tracks s g =
     s\<lparr>tracks :=
         filter (\<lambda>t. list_ex (\<lambda>e. e \<in> set (critical_edge_list g)
                                  \<or> (snd e, fst e) \<in> set (critical_edge_list g))
                         (track_edges t))
           (tracks s)\<rparr>"

subsection \<open>Merge pass\<close>

text \<open>
  \<open>combinations(service.tracks, 2)\<close> by position: the tracks are objects, and
  setting \<open>necessary\<close> on one changes the element of \<open>service.tracks\<close> at its
  position.
\<close>

definition combinations2 :: "nat \<Rightarrow> (nat \<times> nat) list" where
  "combinations2 n = concat (map (\<lambda>i. map (\<lambda>j. (i, j)) [Suc i..<n]) [0..<n])"

definition reversed_edges :: "edge list \<Rightarrow> edge list" where
  "reversed_edges es = map (\<lambda>e. (snd e, fst e)) (rev es)"

text \<open>The four splice cases; \<open>None\<close> is the \<open>continue\<close>.\<close>

definition splice :: "edge list \<Rightarrow> edge list \<Rightarrow> edge list option" where
  "splice edges_i edges_j =
     (let start_i = fst (hd edges_i);
          start_j = fst (hd edges_j);
          end_i = snd (last edges_i);
          end_j = snd (last edges_j)
      in if start_i = start_j then Some (reversed_edges edges_j @ edges_i)
         else if start_i = end_j then Some (edges_j @ edges_i)
         else if end_i = start_j then Some (edges_i @ edges_j)
         else if end_i = end_j then Some (edges_j @ reversed_edges edges_i)
         else None)"

definition combine_step ::
  "int \<Rightarrow> nat \<times> nat \<Rightarrow> edge list list \<times> track list \<Rightarrow> edge list list \<times> track list" where
  "combine_step max_track_length ij st =
     (let i = fst ij; j = snd ij;
          temp_new_track_list = fst st; ts = snd st;
          track_i = ts ! i; track_j = ts ! j
      in if time track_i + time track_j < max_track_length
            \<and> track_edges track_i \<noteq> [] \<and> track_edges track_j \<noteq> []
         then (case splice (track_edges track_i) (track_edges track_j) of
                 None \<Rightarrow> st
               | Some combined_tracks \<Rightarrow>
                   if combined_tracks \<notin> set temp_new_track_list
                      \<and> rev combined_tracks \<notin> set temp_new_track_list
                   then (temp_new_track_list @ [combined_tracks],
                         ts[i := track_i\<lparr>necessary := False\<rparr>,
                            j := track_j\<lparr>necessary := False\<rparr>])
                   else st)
         else st)"

text \<open>
  The loop over the copy \<open>service.tracks[:]\<close>. The track \<open>t\<close> that the loop is at
  is the element of \<open>service.tracks\<close> at position \<open>k\<close>: before it are the tracks
  of the copy that the loop has kept.
\<close>

fun remove_marked :: "track list \<Rightarrow> nat \<Rightarrow> service \<Rightarrow> py_error + service" where
  "remove_marked [] k s = Inr s"
| "remove_marked (t # ts) k s =
     (if \<not> necessary t
      then (case remove_track s k of
              Inl err \<Rightarrow> Inl err
            | Inr s' \<Rightarrow> remove_marked ts k s')
      else remove_marked ts (Suc k) s)"

fun add_new_tracks :: "graph \<Rightarrow> edge list list \<Rightarrow> service \<Rightarrow> py_error + service" where
  "add_new_tracks g [] s = Inr s"
| "add_new_tracks g (new_edges # rest) s =
     (case add_edge_list g (Track_init g) new_edges of
        Inl err \<Rightarrow> Inl err
      | Inr new_track \<Rightarrow>
          (case add_track s new_track of
             Inl err \<Rightarrow> Inl err
           | Inr s' \<Rightarrow> add_new_tracks g rest s'))"

definition combine_tracks :: "service \<Rightarrow> int \<Rightarrow> graph \<Rightarrow> py_error + service" where
  "combine_tracks s max_track_length g =
     (let st = fold (combine_step max_track_length)
                 (combinations2 (length (tracks s))) ([], tracks s);
          temp_new_track_list = fst st;
          s1 = s\<lparr>tracks := snd st\<rparr>
      in if temp_new_track_list \<noteq> []
         then (case remove_marked (tracks s1) 0 s1 of
                 Inl err \<Rightarrow> Inl err
               | Inr s2 \<Rightarrow> add_new_tracks g temp_new_track_list s2)
         else Inr s1)"

subsection \<open>algo\<close>

text \<open>
  One pass of the \<open>for\<close> loop: the construction of a service, then the prune pass
  and the merge pass.
\<close>

definition generate_service ::
  "graph \<Rightarrow> int \<Rightarrow> int \<Rightarrow> rng \<Rightarrow> (py_error + (service \<times> rng)) option" where
  "generate_service g max_track_amount max_track_length rs =
     (case build_tracks g max_track_amount max_track_length (Service_init g) (edges g) rs of
        None \<Rightarrow> None
      | Some (Inl err) \<Rightarrow> Some (Inl err)
      | Some (Inr (s, pool, rs')) \<Rightarrow>
          (case combine_tracks (remove_unnecessary_tracks s g) max_track_length g of
             Inl err \<Rightarrow> Some (Inl err)
           | Inr newer_service \<Rightarrow> Some (Inr (newer_service, rs'))))"

fun algo_loop ::
  "nat \<Rightarrow> graph \<Rightarrow> int \<Rightarrow> int \<Rightarrow> service list \<Rightarrow> rng \<Rightarrow> (py_error + service list) option" where
  "algo_loop 0 g max_track_amount max_track_length all_services rs = Some (Inr all_services)"
| "algo_loop (Suc n) g max_track_amount max_track_length all_services rs =
     (case generate_service g max_track_amount max_track_length rs of
        None \<Rightarrow> None
      | Some (Inl err) \<Rightarrow> Some (Inl err)
      | Some (Inr (newer_service, rs')) \<Rightarrow>
          algo_loop n g max_track_amount max_track_length (all_services @ [newer_service]) rs')"

text \<open>
  The progress bar divides by \<open>float(iterator)\<close> before the first service is
  generated; it changes nothing else.
\<close>

definition algo ::
  "graph \<Rightarrow> int \<Rightarrow> int \<Rightarrow> int \<Rightarrow> rng \<Rightarrow> (py_error + service list) option" where
  "algo g max_track_amount max_track_length iterator rs =
     (if iterator = 0 then Some (Inl ZeroDivisionError)
      else algo_loop (nat iterator) g max_track_amount max_track_length [] rs)"

section \<open>Properties that claims are stated with\<close>

text \<open>The contiguity invariant of an edge sequence.\<close>

fun contiguous :: "edge list \<Rightarrow> bool" where
  "contiguous [] = True"
| "contiguous [e] = True"
| "contiguous (e1 # e2 # es) = (snd e1 = fst e2 \<and> contiguous (e2 # es))"

text \<open>An edge without its orientation.\<close>

definition undirected :: "edge \<Rightarrow> node multiset" where
  "undirected e = {#fst e, snd e#}"

text \<open>
  The test of the neighbour loop: the neighbour is joined to the current node by
  an untraversed edge.
\<close>

definition joined :: "edge list \<Rightarrow> node \<Rightarrow> node \<Rightarrow> bool" where
  "joined untraversed_edges current_node nb =
     ((current_node, nb) \<in> set untraversed_edges \<or> (nb, current_node) \<in> set untraversed_edges)"

text \<open>
  The invariants of the construction. \<open>M\<close> is the multiset of the graph's edges
  without orientation: the pool and the tracks of the service hold exactly these,
  and every track of the service is contiguous. During a walk the track under
  construction counts as well, and it ends at the current node.
\<close>

definition edges_in_tracks :: "service \<Rightarrow> edge list" where
  "edges_in_tracks s = concat (map track_edges (tracks s))"

definition service_inv :: "node multiset multiset \<Rightarrow> service \<Rightarrow> edge list \<Rightarrow> bool" where
  "service_inv M s pool =
     (list_all (\<lambda>t. contiguous (track_edges t)) (tracks s)
      \<and> mset (map undirected (pool @ edges_in_tracks s)) = M)"

definition walk_inv ::
  "node multiset multiset \<Rightarrow> service \<Rightarrow> edge list \<Rightarrow> track \<Rightarrow> node \<Rightarrow> bool" where
  "walk_inv M s pool t current_node =
     (service_inv M s (pool @ track_edges t)
      \<and> contiguous (track_edges t)
      \<and> (track_edges t = [] \<or> snd (last (track_edges t)) = current_node))"

text \<open>
  The merge pass: an edge sequence spliced from two tracks of a list whose times
  together are under the maximum, and a track as the scan of the pairs can leave it,
  untouched or with \<open>necessary\<close> set to \<open>False\<close>.
\<close>

definition spliced_from :: "int \<Rightarrow> track list \<Rightarrow> edge list \<Rightarrow> bool" where
  "spliced_from max_track_length ts c =
     (\<exists>ti\<in>set ts. \<exists>tj\<in>set ts.
        track_edges ti \<noteq> [] \<and> track_edges tj \<noteq> []
        \<and> time ti + time tj < max_track_length
        \<and> splice (track_edges ti) (track_edges tj) = Some c)"

definition marked :: "track \<Rightarrow> track \<Rightarrow> bool" where
  "marked t t0 = (t = t0 \<or> t = t0\<lparr>necessary := False\<rparr>)"

text \<open>
  A sequence of draws with infinitely many even and infinitely many odd numbers:
  a choice between two elements takes each of them again and again.
\<close>

definition fair :: "rng \<Rightarrow> bool" where
  "fair rs = ((\<forall>n. \<exists>k\<ge>n. even (rs k)) \<and> (\<forall>n. \<exists>k\<ge>n. odd (rs k)))"

section \<open>Example inputs\<close>

text \<open>
  The path A - B - C - D with three edges of weight 5, station A critical, as the
  constructor builds it from its two files.
\<close>

definition path4 :: graph where
  "path4 =
     Graph_init
       [(''A'', ''Critical''), (''B'', ''Station''), (''C'', ''Station''), (''D'', ''Station'')]
       [(''A'', ''B'', 5), (''B'', ''C'', 5), (''C'', ''D'', 5)]"

text \<open>The same path with no critical station.\<close>

definition path4_plain :: graph where
  "path4_plain =
     Graph_init
       [(''A'', ''Station''), (''B'', ''Station''), (''C'', ''Station''), (''D'', ''Station'')]
       [(''A'', ''B'', 5), (''B'', ''C'', 5), (''C'', ''D'', 5)]"

text \<open>Draws: always the first element; the second element at the given draws only.\<close>

definition draws_first :: rng where
  "draws_first = (\<lambda>i. 0)"

definition draws_second_at :: "nat list \<Rightarrow> rng" where
  "draws_second_at ks = (\<lambda>i. if i \<in> set ks then 1 else 0)"

text \<open>A track of \<open>path4\<close> with the one edge A - B, as \<open>add_edge\<close> leaves it.\<close>

definition track_AB :: track where
  "track_AB = \<lparr>track_edges = [(''A'', ''B'')], necessary = True, time = 5\<rparr>"

definition track_CD :: track where
  "track_CD = \<lparr>track_edges = [(''C'', ''D'')], necessary = True, time = 5\<rparr>"

text \<open>
  Two triangles X - V - U and Y - Z - W joined by the edge X - Y, all weights 5,
  stations X and Y critical; and the service that the construction and the prune
  pass give on it when the first walk is X - Y - Z - W - Y and the second
  X - V - U - X.
\<close>

definition two_triangles :: graph where
  "two_triangles =
     Graph_init
       [(''X'', ''Critical''), (''Y'', ''Critical''), (''V'', ''Station''), (''U'', ''Station''),
        (''Z'', ''Station''), (''W'', ''Station'')]
       [(''X'', ''Y'', 5), (''X'', ''V'', 5), (''V'', ''U'', 5), (''U'', ''X'', 5),
        (''Y'', ''Z'', 5), (''Z'', ''W'', 5), (''W'', ''Y'', 5)]"

definition two_walks :: service where
  "two_walks =
     (case build_tracks two_triangles 5 100 (Service_init two_triangles) (edges two_triangles)
             (draws_second_at [2, 3, 4, 6, 7, 8]) of
        Some (Inr (s, pool, rs')) \<Rightarrow> remove_unnecessary_tracks s two_triangles
      | _ \<Rightarrow> Service_init two_triangles)"

text \<open>
  The tracks of \<open>path4\<close> that a walk from A and a walk from D build, and the
  services that hold the whole walk.
\<close>

definition track_ABC :: track where
  "track_ABC =
     \<lparr>track_edges = [(''A'', ''B''), (''B'', ''C'')], necessary = True, time = 10\<rparr>"

definition track_ABCD :: track where
  "track_ABCD =
     \<lparr>track_edges = [(''A'', ''B''), (''B'', ''C''), (''C'', ''D'')],
      necessary = True, time = 15\<rparr>"

definition track_DC :: track where
  "track_DC = \<lparr>track_edges = [(''D'', ''C'')], necessary = True, time = 5\<rparr>"

definition track_DCB :: track where
  "track_DCB =
     \<lparr>track_edges = [(''D'', ''C''), (''C'', ''B'')], necessary = True, time = 10\<rparr>"

definition track_DCBA :: track where
  "track_DCBA =
     \<lparr>track_edges = [(''D'', ''C''), (''C'', ''B''), (''B'', ''A'')],
      necessary = True, time = 15\<rparr>"

definition service_ABCD :: service where
  "service_ABCD =
     \<lparr>tracks = [track_ABCD], all_critical_edges = [(''A'', ''B'')],
      critical_edges_traversed = [(''A'', ''B'')], service_time = 15,
      percen_critical_edges_traversed = 1, score = get_score 1 1 15\<rparr>"

definition service_DCBA :: service where
  "service_DCBA =
     \<lparr>tracks = [track_DCBA], all_critical_edges = [(''A'', ''B'')],
      critical_edges_traversed = [(''B'', ''A'')], service_time = 15,
      percen_critical_edges_traversed = 1, score = get_score 1 1 15\<rparr>"

declare get_neighbour_with_untraversed_edge.simps [code]
declare walk.simps [code]
declare build_tracks.simps [code]

section \<open>The example inputs are what the code builds\<close>

lemma path4_edges: "edges path4 = [(''A'', ''B''), (''B'', ''C''), (''C'', ''D'')]"
  by code_simp

lemma path4_critical: "critical_edge_list path4 = [(''A'', ''B'')]"
  by code_simp

lemma track_AB_built:
  "add_edge path4 (Track_init path4) (''A'', ''B'') = Inr (track_AB, [])"
  by code_simp

lemma track_CD_built:
  "add_edge path4 (Track_init path4) (''C'', ''D'') = Inr (track_CD, [])"
  by code_simp

section \<open>Track\<close>

text \<open>
  Claim C10. For every Track whose edge sequence is empty, \<open>remove_last_edge\<close>
  returns without raising, and leaves the edge sequence empty and the time 0.
\<close>

theorem remove_last_edge_empty:
  assumes "track_edges t = []"
  shows "remove_last_edge g t = Inr (t\<lparr>track_edges := [], time := 0\<rparr>)"
  using assms by (simp add: remove_last_edge_def update_time_def)

theorem remove_last_edge_empty_witness:
  "track_edges (Track_init path4) = []
   \<and> remove_last_edge path4 (Track_init path4)
       = Inr \<lparr>track_edges = [], necessary = True, time = 0\<rparr>"
  using remove_last_edge_empty [of "Track_init path4" path4]
  by (simp add: Track_init_def)

text \<open>
  Claim C3, as the code has it. When the Track is not empty and the edge does not
  start where the last edge ends, \<open>add_edge\<close> prints its message and returns as it
  does after an append: no exception, no error value. The edge sequence and the
  time of the Track are unchanged.
\<close>

theorem add_edge_violation_prints_and_returns:
  assumes "track_edges t \<noteq> []" and "snd (last (track_edges t)) \<noteq> fst e"
  shows "add_edge g t e = Inr (t, [contiguity_message])"
  using assms by (simp add: add_edge_def)

theorem add_edge_violation_prints_and_returns_witness:
  "track_edges track_AB \<noteq> [] \<and> snd (last (track_edges track_AB)) \<noteq> fst (''C'', ''D'')
   \<and> add_edge path4 track_AB (''C'', ''D'') = Inr (track_AB, [contiguity_message])"
  using add_edge_violation_prints_and_returns [of track_AB "(''C'', ''D'')" path4]
  by (simp add: track_AB_def)

text \<open>
  Claim C3, as stated, fails: on the track A - B of \<open>path4\<close>, appending C - D is
  a contiguity violation, and the call is no failure for its caller.
\<close>

theorem add_edge_violation_not_reported:
  "snd (last (track_edges track_AB)) \<noteq> fst (''C'', ''D'')
   \<and> \<not> isl (add_edge path4 track_AB (''C'', ''D''))
   \<and> isl (add_edge path4 track_AB (''C'', ''D'')) = isl (add_edge path4 track_AB (''B'', ''C''))"
  by code_simp

section \<open>Coverage fraction\<close>

text \<open>
  Claim C2, on the code: with no critical edge the coverage fraction is a division by
  zero, whatever has been traversed. On the path without a critical station the first
  \<open>add_track\<close> reaches it, and \<open>algo\<close> raises instead of returning services of
  coverage 0.
\<close>

theorem coverage_fraction_without_critical_edges_raises:
  "get_percentage_critical_edges_traversed traversed [] = Inl ZeroDivisionError
   \<and> critical_edge_list path4_plain = []
   \<and> algo path4_plain 1 100 1 (draws_second_at [2, 3]) = Some (Inl ZeroDivisionError)"
proof -
  have "get_percentage_critical_edges_traversed traversed [] = Inl ZeroDivisionError"
    by (simp add: get_percentage_critical_edges_traversed_def)
  moreover have "critical_edge_list path4_plain = []"
    by code_simp
  moreover have "algo path4_plain 1 100 1 (draws_second_at [2, 3]) = Some (Inl ZeroDivisionError)"
    by code_simp
  ultimately show ?thesis by simp
qed

section \<open>Seed selection\<close>

text \<open>
  A station is never an element of the list of critical edges: the first branch of
  \<open>get_one_edge_node\<close> is never taken.
\<close>

lemma no_node_in_critical_edges:
  "nodes_with_one_edge_and_critical_neighbor untraversed_edges s = []"
  by (simp add: nodes_with_one_edge_and_critical_neighbor_def node_val_def edge_val_def
      filter_empty_conv image_iff)

lemma get_one_edge_node_branches:
  "get_one_edge_node untraversed_edges g s rs =
     (if nodes_with_one_edge untraversed_edges \<noteq> []
      then random_choice (nodes_with_one_edge untraversed_edges) rs
      else random_choice (nodes g) rs)"
  by (simp add: get_one_edge_node_def no_node_in_critical_edges)

text \<open>
  Claim C5, on the code: in the full pool of \<open>path4\<close> the stations A and D touch
  one edge each, A is critical and D is not, and the seed is D when the draw is odd.
\<close>

theorem seed_ignores_critical_station:
  "nodes_with_one_edge (edges path4) = [''A'', ''D'']
   \<and> critical_station_list path4 = [''A'']
   \<and> map_sum id fst
         (get_one_edge_node (edges path4) path4 (Service_init path4) (draws_second_at [0]))
       = Inr ''D''"
  by code_simp

section \<open>Service\<close>

text \<open>
  Claim C1, on the code: with at most 2 tracks of time at most 7 on \<open>path4\<close>, the
  construction ends with the tracks A - B and C - D and the total time 10. The prune
  pass drops C - D and leaves the total time and the score as they were; the returned
  service has one track of time 5, the total time 10 and the score of two tracks.
\<close>

theorem prune_leaves_time_and_score:
  "(case build_tracks path4 2 7 (Service_init path4) (edges path4) (draws_second_at [2, 3]) of
      Some (Inr (s, pool, rs')) \<Rightarrow>
        tracks s = [track_AB, track_CD] \<and> service_time s = 10
        \<and> tracks (remove_unnecessary_tracks s path4) = [track_AB]
        \<and> service_time (remove_unnecessary_tracks s path4) = 10
        \<and> score (remove_unnecessary_tracks s path4) = score s
    | _ \<Rightarrow> False)
   \<and> (case algo path4 2 7 1 (draws_second_at [2, 3]) of
        Some (Inr [s]) \<Rightarrow>
          tracks s = [track_AB] \<and> sum_list (map time (tracks s)) = 5
          \<and> service_time s = 10
          \<and> score s = get_score 1 2 10
          \<and> score s \<noteq> get_score (percen_critical_edges_traversed s) (length (tracks s))
                         (service_time s)
      | _ \<Rightarrow> False)"
  by code_simp

section \<open>Neighbour selection\<close>

lemma get_neighbour_first_hit:
  assumes "nx_neighbors (G g) current_node = Inr nbrs" and "nbrs \<noteq> []"
    and "joined pool current_node (nbrs ! (rs k mod length nbrs))"
    and "\<forall>i<k. \<not> joined pool current_node (nbrs ! (rs i mod length nbrs))"
  shows "get_neighbour_with_untraversed_edge pool g current_node rs =
           Some (Inr (nbrs ! (rs k mod length nbrs), (\<lambda>i. rs (i + Suc k))))"
  using assms(3,4)
proof (induction k arbitrary: rs)
  case 0
  then show ?case
    using assms(1,2)
    by (subst get_neighbour_with_untraversed_edge.simps)
       (auto simp: random_choice_def joined_def advance_def)
next
  case (Suc k)
  have miss: "\<not> joined pool current_node (nbrs ! (rs 0 mod length nbrs))"
    using Suc.prems(2) by blast
  have hit': "joined pool current_node (nbrs ! (advance rs k mod length nbrs))"
    using Suc.prems(1) by (simp add: advance_def)
  have miss': "\<forall>i<k. \<not> joined pool current_node (nbrs ! (advance rs i mod length nbrs))"
    using Suc.prems(2) by (simp add: advance_def)
  have step: "get_neighbour_with_untraversed_edge pool g current_node rs =
        get_neighbour_with_untraversed_edge pool g current_node (advance rs)"
    using assms(1,2) miss
    by (subst get_neighbour_with_untraversed_edge.simps)
       (simp add: random_choice_def joined_def)
  show ?case
    using Suc.IH [OF hit' miss'] step by (simp add: advance_def)
qed

lemma get_neighbour_returns_hit:
  assumes "get_neighbour_with_untraversed_edge pool g current_node rs = Some y"
  shows "nx_neighbors (G g) current_node = Inr nbrs \<longrightarrow> nbrs \<noteq> []
         \<longrightarrow> (\<exists>i. joined pool current_node (nbrs ! (rs i mod length nbrs)))"
  using assms
proof (induction pool g current_node rs y
    rule: get_neighbour_with_untraversed_edge.raw_induct [rotated 1, consumes 1])
  case (1 f pool g current_node rs y)
  show ?case
  proof (intro impI)
    assume nb: "nx_neighbors (G g) current_node = Inr nbrs" and ne: "nbrs \<noteq> []"
    show "\<exists>i. joined pool current_node (nbrs ! (rs i mod length nbrs))"
    proof (cases "joined pool current_node (nbrs ! (rs 0 mod length nbrs))")
      case True
      then show ?thesis by blast
    next
      case False
      with 1(2) nb ne have "f pool g current_node (advance rs) = Some y"
        by (simp add: random_choice_def joined_def)
      from 1(1) [OF this] nb ne obtain i
        where "joined pool current_node (nbrs ! (advance rs i mod length nbrs))" by blast
      then have "joined pool current_node (nbrs ! (rs (Suc i) mod length nbrs))"
        by (simp add: advance_def)
      then show ?thesis by blast
    qed
  qed
qed

lemma get_neighbour_no_hit:
  assumes "nx_neighbors (G g) current_node = Inr nbrs" and "nbrs \<noteq> []"
    and "\<forall>i. \<not> joined pool current_node (nbrs ! (rs i mod length nbrs))"
  shows "get_neighbour_with_untraversed_edge pool g current_node rs = None"
proof (cases "get_neighbour_with_untraversed_edge pool g current_node rs")
  case None
  then show ?thesis .
next
  case (Some y)
  from get_neighbour_returns_hit [OF Some] assms show ?thesis by blast
qed

lemma path4_nbrs_B: "nx_neighbors (G path4) ''B'' = Inr [''A'', ''C'']"
  by code_simp

text \<open>
  Claim C4, as stated, fails: on \<open>path4\<close> with the edge A - B traversed, station B
  touches the untraversed edge B - C, and the selection never returns when every
  draw is the first neighbour, A.
\<close>

theorem neighbour_selection_can_run_forever:
  "filter (\<lambda>e. ''B'' = fst e \<or> ''B'' = snd e) [(''B'', ''C''), (''C'', ''D'')] \<noteq> []
   \<and> get_neighbour_with_untraversed_edge [(''B'', ''C''), (''C'', ''D'')] path4 ''B'' draws_first
       = None"
proof -
  have "get_neighbour_with_untraversed_edge [(''B'', ''C''), (''C'', ''D'')] path4 ''B'' draws_first
       = None"
    by (rule get_neighbour_no_hit [OF path4_nbrs_B]) (simp_all add: draws_first_def joined_def)
  then show ?thesis by simp
qed

text \<open>
  Claim C4, as the code has it. The selection is a resampling loop with no bound
  on its draws: it returns the first drawn neighbour that is joined to the current
  node by an untraversed edge, after as many draws as that takes, and it never
  returns when no draw gives such a neighbour.
\<close>

theorem neighbour_selection_first_hit:
  assumes "nx_neighbors (G g) current_node = Inr nbrs" and "nbrs \<noteq> []"
  shows "(joined pool current_node (nbrs ! (rs k mod length nbrs))
          \<and> (\<forall>i<k. \<not> joined pool current_node (nbrs ! (rs i mod length nbrs)))
          \<longrightarrow> get_neighbour_with_untraversed_edge pool g current_node rs
              = Some (Inr (nbrs ! (rs k mod length nbrs), (\<lambda>i. rs (i + Suc k)))))
       \<and> ((\<forall>i. \<not> joined pool current_node (nbrs ! (rs i mod length nbrs)))
          \<longrightarrow> get_neighbour_with_untraversed_edge pool g current_node rs = None)"
  using get_neighbour_first_hit [OF assms] get_neighbour_no_hit [OF assms] by blast

theorem neighbour_selection_first_hit_witness:
  "nx_neighbors (G path4) ''B'' = Inr [''A'', ''C'']
   \<and> \<not> joined [(''B'', ''C''), (''C'', ''D'')] ''B'' ([''A'', ''C''] ! (draws_second_at [2] 0 mod 2))
   \<and> \<not> joined [(''B'', ''C''), (''C'', ''D'')] ''B'' ([''A'', ''C''] ! (draws_second_at [2] 1 mod 2))
   \<and> joined [(''B'', ''C''), (''C'', ''D'')] ''B'' ([''A'', ''C''] ! (draws_second_at [2] 2 mod 2))
   \<and> map_option (map_sum id fst)
        (get_neighbour_with_untraversed_edge [(''B'', ''C''), (''C'', ''D'')] path4 ''B''
           (draws_second_at [2]))
       = Some (Inr ''C'')"
proof -
  have less2: "\<And>P. (\<forall>i<(2::nat). P i) = (P 0 \<and> P 1)"
    by (auto simp: less_Suc_eq numeral_2_eq_2)
  show ?thesis
    using neighbour_selection_first_hit
      [OF path4_nbrs_B, of "[(''B'', ''C''), (''C'', ''D'')]" "draws_second_at [2]" 2]
    by (simp add: path4_nbrs_B draws_second_at_def joined_def less2)
qed
section \<open>The construction of a service\<close>

lemma update_time_Inr:
  assumes "update_time g t = Inr t'"
  shows "track_edges t' = track_edges t" and "necessary t' = necessary t"
    and "sum_weights (G g) (track_edges t) 0 = Inr (time t')"
  using assms by (auto simp: update_time_def split: sum.splits)

lemma add_edge_Inr:
  assumes "add_edge g t e = Inr (t', printed)"
  shows "track_edges t' =
           (if track_edges t = [] \<or> snd (last (track_edges t)) = fst e
            then track_edges t @ [e] else track_edges t)"
  using assms by (auto simp: add_edge_def dest: update_time_Inr(1) split: if_splits sum.splits)

lemma edge_again_untraversed_Inr:
  assumes "edge_again_untraversed g t pool = Inr (t', pool')"
  shows "track_edges t \<noteq> []" and "track_edges t' = butlast (track_edges t)"
    and "pool' = pool @ [last (track_edges t)]"
  using assms
  by (auto simp: edge_again_untraversed_def remove_last_edge_def dest: update_time_Inr(1)
      split: if_splits sum.splits)

lemma tracks_add_traversed [simp]: "tracks (add_traversed_critical_edge s t) = tracks s"
  by (simp add: add_traversed_critical_edge_def)

lemma update_scores_tracks:
  "update_scores s = Inr s' \<Longrightarrow> tracks s' = tracks s"
  by (auto simp: update_scores_def split: sum.splits)

lemma add_track_Inr:
  assumes "add_track s t = Inr s'"
  shows "tracks s' = tracks s @ [t]"
  using assms by (auto simp: add_track_def Let_def dest: update_scores_tracks)

lemma contiguous_Cons:
  "contiguous (e # es) \<longleftrightarrow> contiguous es \<and> (es = [] \<or> snd e = fst (hd es))"
  by (cases es) auto

lemma contiguous_append:
  "contiguous (xs @ ys) \<longleftrightarrow>
     contiguous xs \<and> contiguous ys \<and> (xs = [] \<or> ys = [] \<or> snd (last xs) = fst (hd ys))"
  by (induction xs) (auto simp: contiguous_Cons)

lemma contiguous_butlast: "contiguous xs \<Longrightarrow> contiguous (butlast xs)"
  by (induction xs rule: contiguous.induct) (auto split: if_splits)

lemma get_neighbour_result_joined:
  assumes "get_neighbour_with_untraversed_edge pool g current_node rs = Some y"
  shows "y = Inr (nb, rs') \<longrightarrow> joined pool current_node nb"
  using assms
proof (induction pool g current_node rs y
    rule: get_neighbour_with_untraversed_edge.raw_induct [rotated 1, consumes 1])
  case (1 f pool g current_node rs y)
  show ?case
  proof
    assume y: "y = Inr (nb, rs')"
    from 1(2) obtain nbrs where nbrs: "nx_neighbors (G g) current_node = Inr nbrs"
      using y by (auto split: sum.splits)
    from 1(2) nbrs obtain x rs1 where ch: "random_choice nbrs rs = Inr (x, rs1)"
      using y by (auto split: sum.splits)
    show "joined pool current_node nb"
    proof (cases "joined pool current_node x")
      case True
      with 1(2) nbrs ch y show ?thesis by (auto simp: joined_def split: if_splits)
    next
      case False
      with 1(2) nbrs ch have "f pool g current_node rs1 = Some y"
        by (simp add: joined_def)
      from 1(1) [OF this] y show ?thesis by simp
    qed
  qed
qed

lemma undirected_swap: "undirected (a, b) = undirected (b, a)"
  by (simp add: undirected_def)

lemma mset_remove_traversed:
  assumes "joined pool current_node nb"
  shows "mset (map undirected (remove_traversed current_node nb pool))
           + {#undirected (current_node, nb)#}
         = mset (map undirected pool)"
proof -
  have r: "\<And>x. x \<in> set pool \<Longrightarrow>
      mset (map undirected (remove1 x pool)) + {#undirected x#} = mset (map undirected pool)"
    by (induction pool) auto
  show ?thesis
    using assms r [of "(current_node, nb)"] r [of "(nb, current_node)"]
    by (auto simp: remove_traversed_def joined_def undirected_swap [of nb current_node])
qed


lemma mset_butlast_last:
  assumes "xs \<noteq> []"
  shows "mset (map f (butlast xs)) + {#f (last xs)#} = mset (map f xs)"
proof -
  have "mset (map f xs) = mset (map f (butlast xs @ [last xs]))"
    using assms by simp
  also have "\<dots> = mset (map f (butlast xs)) + {#f (last xs)#}"
    by simp
  finally show ?thesis by simp
qed

lemma service_inv_add_track:
  assumes "add_track s t = Inr s'" and "contiguous (track_edges t)"
    and "service_inv M s (pool @ track_edges t)"
  shows "service_inv M s' pool"
proof -
  have "tracks s' = tracks s @ [t]"
    using assms(1) by (rule add_track_Inr)
  then show ?thesis
    using assms(2,3) by (simp add: service_inv_def edges_in_tracks_def ac_simps)
qed


lemma service_inv_cong:
  assumes "mset (map undirected pool') = mset (map undirected pool)"
  shows "service_inv M s pool' = service_inv M s pool"
  using assms by (simp add: service_inv_def)

lemma walk_inv_overflow:
  assumes "edge_again_untraversed g t pool = Inr (t', pool')"
    and "walk_inv M s pool t current_node"
  shows "service_inv M s (pool' @ track_edges t')" and "contiguous (track_edges t')"
proof -
  note e = edge_again_untraversed_Inr [OF assms(1)]
  have "mset (map undirected (pool' @ track_edges t')) = mset (map undirected (pool @ track_edges t))"
    using mset_butlast_last [OF e(1), of undirected] e(2,3) by (simp add: ac_simps)
  from service_inv_cong [OF this] show "service_inv M s (pool' @ track_edges t')"
    using assms(2) by (simp add: walk_inv_def)
  show "contiguous (track_edges t')"
    using assms(2) e(2) by (simp add: walk_inv_def contiguous_butlast)
qed

lemma walk_inv_consume:
  assumes "joined pool current_node nb"
    and "add_edge g t (current_node, nb) = Inr (t', printed)"
    and "walk_inv M s pool t current_node"
  shows "walk_inv M s (remove_traversed current_node nb pool) t' nb"
proof -
  have te: "track_edges t' = track_edges t @ [(current_node, nb)]"
    using add_edge_Inr [OF assms(2)] assms(3) by (auto simp: walk_inv_def)
  have "mset (map undirected (remove_traversed current_node nb pool @ track_edges t'))
        = mset (map undirected (pool @ track_edges t))"
    using mset_remove_traversed [OF assms(1)] by (simp add: te ac_simps)
  from service_inv_cong [OF this]
  have "service_inv M s (remove_traversed current_node nb pool @ track_edges t')"
    using assms(3) by (simp add: walk_inv_def)
  moreover have "contiguous (track_edges t')"
    using assms(3) by (auto simp: walk_inv_def te contiguous_append)
  ultimately show ?thesis
    by (simp add: walk_inv_def te)
qed

lemma walk_preserves:
  assumes "walk g max_track_length s pool t current_node rs = Some y"
  shows "y = Inr (s', pool', rs') \<longrightarrow> walk_inv M s pool t current_node
         \<longrightarrow> service_inv M s' pool'"
  using assms
proof (induction g max_track_length s pool t current_node rs y
    rule: walk.raw_induct [rotated 1, consumes 1])
  case (1 w g max_track_length s pool t current_node rs y)
  show ?case
  proof (intro impI)
    assume y: "y = Inr (s', pool', rs')" and inv: "walk_inv M s pool t current_node"
    let ?remaining = "filter (\<lambda>e. current_node = fst e \<or> current_node = snd e) pool"
    consider (stop) "?remaining = []" "\<not> time t > max_track_length"
      | (stop_overflow) "?remaining = []" "time t > max_track_length"
      | (overflow) "?remaining \<noteq> []" "time t > max_track_length"
      | (consume) "?remaining \<noteq> []" "\<not> time t > max_track_length"
      by blast
    then show "service_inv M s' pool'"
    proof cases
      case stop
      with 1(2) y have "add_track s t = Inr s'" and "pool' = pool"
        by (auto split: sum.splits)
      with inv show ?thesis
        by (auto simp: walk_inv_def intro: service_inv_add_track)
    next
      case stop_overflow
      with 1(2) y obtain t1 where e: "edge_again_untraversed g t pool = Inr (t1, pool')"
        and a: "add_track s t1 = Inr s'"
        by (auto split: sum.splits)
      from walk_inv_overflow [OF e inv] a show ?thesis
        by (auto intro: service_inv_add_track)
    next
      case overflow
      with 1(2) y obtain t1 pool1 s1
        where e: "edge_again_untraversed g t pool = Inr (t1, pool1)"
        and a: "add_track s t1 = Inr s1"
        and w: "w g max_track_length s1 pool1 (Track_init g) current_node rs = Some y"
        by (auto split: sum.splits)
      have "service_inv M s1 pool1"
        using walk_inv_overflow [OF e inv] a by (auto intro: service_inv_add_track)
      then have "walk_inv M s1 pool1 (Track_init g) current_node"
        by (simp add: walk_inv_def Track_init_def)
      with 1(1) [OF w] y show ?thesis by simp
    next
      case consume
      with 1(2) y obtain nb rs1 t1 printed
        where n: "get_neighbour_with_untraversed_edge pool g current_node rs = Some (Inr (nb, rs1))"
        and a: "add_edge g t (current_node, nb) = Inr (t1, printed)"
        and w: "w g max_track_length s (remove_traversed current_node nb pool) t1 nb rs1 = Some y"
        by (auto split: sum.splits option.splits)
      have "joined pool current_node nb"
        using get_neighbour_result_joined [OF n] by simp
      from walk_inv_consume [OF this a inv] 1(1) [OF w] y show ?thesis by simp
    qed
  qed
qed


lemma build_tracks_preserves:
  assumes "build_tracks g max_track_amount max_track_length s pool rs = Some y"
  shows "y = Inr (s', pool', rs') \<longrightarrow> service_inv M s pool \<longrightarrow> service_inv M s' pool'"
  using assms
proof (induction g max_track_amount max_track_length s pool rs y
    rule: build_tracks.raw_induct [rotated 1, consumes 1])
  case (1 b g max_track_amount max_track_length s pool rs y)
  show ?case
  proof (intro impI)
    assume y: "y = Inr (s', pool', rs')" and inv: "service_inv M s pool"
    show "service_inv M s' pool'"
    proof (cases "pool \<noteq> [] \<and> int (length (tracks s)) < max_track_amount")
      case False
      with 1(2) y inv show ?thesis by auto
    next
      case True
      with 1(2) y obtain current_node rs1 s1 pool1 rs2
        where w: "walk g max_track_length s pool (Track_init g) current_node rs1
                    = Some (Inr (s1, pool1, rs2))"
        and b: "b g max_track_amount max_track_length s1 pool1 rs2 = Some y"
        by (auto split: sum.splits option.splits)
      have "walk_inv M s pool (Track_init g) current_node"
        using inv by (simp add: walk_inv_def Track_init_def)
      with walk_preserves [OF w] have "service_inv M s1 pool1" by simp
      with 1(1) [OF b] y show ?thesis by simp
    qed
  qed
qed

lemma service_inv_init:
  "service_inv (mset (map undirected (edges g))) (Service_init g) (edges g)"
  by (simp add: service_inv_def Service_init_def edges_in_tracks_def)

lemma build_tracks_service_inv:
  assumes "build_tracks g max_track_amount max_track_length (Service_init g) (edges g) rs
             = Some (Inr (s, pool, rs'))"
  shows "service_inv (mset (map undirected (edges g))) s pool"
  using build_tracks_preserves [OF assms] service_inv_init by simp

lemma build_tracks_exit:
  assumes "build_tracks g max_track_amount max_track_length s pool rs = Some y"
  shows "y = Inr (s', pool', rs')
         \<longrightarrow> pool' = [] \<or> \<not> int (length (tracks s')) < max_track_amount"
  using assms
proof (induction g max_track_amount max_track_length s pool rs y
    rule: build_tracks.raw_induct [rotated 1, consumes 1])
  case (1 b g max_track_amount max_track_length s pool rs y)
  show ?case
  proof
    assume y: "y = Inr (s', pool', rs')"
    show "pool' = [] \<or> \<not> int (length (tracks s')) < max_track_amount"
    proof (cases "pool \<noteq> [] \<and> int (length (tracks s)) < max_track_amount")
      case False
      with 1(2) y show ?thesis by auto
    next
      case True
      with 1(2) y obtain s1 pool1 rs2
        where "b g max_track_amount max_track_length s1 pool1 rs2 = Some y"
        by (auto split: sum.splits option.splits)
      from 1(1) [OF this] y show ?thesis by simp
    qed
  qed
qed

text \<open>
  Claim C6, as the code has it. When the construction of a service returns (before
  the prune and merge passes), the edges of the graph, without orientation and with
  their multiplicity, are the edges left in the pool together with the edges of the
  tracks of the service: an edge that has left the pool for good lies in exactly one
  track, once. An edge returned to the pool by an overflow correction is traversed
  again by a later track unless the cap on the number of tracks ends the
  construction: when the service has fewer tracks than the cap, the pool is empty
  and the tracks hold every edge of the graph.
\<close>

theorem edge_conservation:
  assumes "build_tracks g max_track_amount max_track_length (Service_init g) (edges g) rs
             = Some (Inr (s, pool, rs'))"
  shows "mset (map undirected (pool @ concat (map track_edges (tracks s))))
           = mset (map undirected (edges g))
         \<and> (int (length (tracks s)) < max_track_amount
              \<longrightarrow> pool = []
                \<and> mset (map undirected (concat (map track_edges (tracks s))))
                    = mset (map undirected (edges g)))"
proof -
  have c: "mset (map undirected (pool @ concat (map track_edges (tracks s))))
           = mset (map undirected (edges g))"
    using build_tracks_service_inv [OF assms]
    by (simp add: service_inv_def edges_in_tracks_def)
  have "pool = [] \<or> \<not> int (length (tracks s)) < max_track_amount"
    using build_tracks_exit [OF assms] by simp
  with c show ?thesis by auto
qed

text \<open>
  Claim C6, as stated, fails: with at most 2 tracks of time at most 7 on \<open>path4\<close>
  and the seed D, the walk D - C - B exceeds the time, and the overflow correction
  returns its last edge to the pool as (C, B), the orientation of the walk, which the
  list of the graph's edges does not have. The second track B - A reaches the cap of
  2 tracks: the construction ends with the returned edge in the pool and in no track.
\<close>

theorem returned_edge_not_traversed_again:
  "(''C'', ''B'') \<notin> set (edges path4)
   \<and> (case build_tracks path4 2 7 (Service_init path4) (edges path4) (draws_second_at [0]) of
        Some (Inr (s, pool, rs')) \<Rightarrow>
          pool = [(''C'', ''B'')]
          \<and> map track_edges (tracks s) = [[(''D'', ''C'')], [(''B'', ''A'')]]
      | _ \<Rightarrow> False)"
  by code_simp

lemma returned_edge_run:
  "\<exists>s rs'. build_tracks path4 4 7 (Service_init path4) (edges path4) (draws_second_at [0])
      = Some (Inr (s, [], rs'))
     \<and> map track_edges (tracks s) = [[(''D'', ''C'')], [(''B'', ''A'')], [(''C'', ''B'')]]"
proof -
  have "(case build_tracks path4 4 7 (Service_init path4) (edges path4) (draws_second_at [0]) of
        Some (Inr (s, pool, rs')) \<Rightarrow>
          pool = []
          \<and> map track_edges (tracks s) = [[(''D'', ''C'')], [(''B'', ''A'')], [(''C'', ''B'')]]
      | _ \<Rightarrow> False)"
    by code_simp
  then show ?thesis
    by (auto split: option.splits sum.splits)
qed

text \<open>
  The same walks with a cap of 4 tracks: the returned edge is traversed again by the
  third track, and the pool is empty.
\<close>

theorem edge_conservation_witness:
  "\<exists>s rs'. build_tracks path4 4 7 (Service_init path4) (edges path4) (draws_second_at [0])
      = Some (Inr (s, [], rs'))
     \<and> map track_edges (tracks s) = [[(''D'', ''C'')], [(''B'', ''A'')], [(''C'', ''B'')]]
     \<and> int (length (tracks s)) < 4
     \<and> mset (map undirected (concat (map track_edges (tracks s))))
         = mset (map undirected (edges path4))"
proof -
  from returned_edge_run obtain s rs'
    where r: "build_tracks path4 4 7 (Service_init path4) (edges path4) (draws_second_at [0])
      = Some (Inr (s, [], rs'))"
    and t: "map track_edges (tracks s) = [[(''D'', ''C'')], [(''B'', ''A'')], [(''C'', ''B'')]]"
    by (elim exE conjE)
  have "length (map track_edges (tracks s)) = 3"
    by (simp only: t) simp
  then have l: "int (length (tracks s)) < 4"
    by simp
  with edge_conservation [OF r]
  have "mset (map undirected (concat (map track_edges (tracks s))))
         = mset (map undirected (edges path4))"
    by (elim conjE) (erule impE, assumption, erule conjE, assumption)
  with r t l show ?thesis
    by (intro exI [of _ s] exI [of _ rs'] conjI)
qed

lemma edge_conservation_distinct:
  assumes "build_tracks g max_track_amount max_track_length (Service_init g) (edges g) rs
             = Some (Inr (s, pool, rs'))"
    and "distinct (map undirected (edges g))"
  shows "distinct (map undirected (pool @ concat (map track_edges (tracks s))))"
proof -
  have "mset (map undirected (pool @ concat (map track_edges (tracks s))))
         = mset (map undirected (edges g))"
    using build_tracks_service_inv [OF assms(1)]
    by (simp add: service_inv_def edges_in_tracks_def)
  from mset_eq_imp_distinct_iff [OF this] assms(2) show ?thesis by simp
qed

section \<open>The merge pass\<close>

lemma tracks_remove_traversed [simp]: "tracks (remove_traversed_critical_edge s) = tracks s"
proof -
  have "\<And>s'. tracks (fold (\<lambda>t s'. add_traversed_critical_edge s' t) ts s') = tracks s'" for ts
    by (induction ts) simp_all
  then show ?thesis by (simp add: remove_traversed_critical_edge_def)
qed

lemma remove_track_Inr:
  assumes "remove_track s k = Inr s'"
  shows "k < length (tracks s)"
    and "tracks s' = take k (tracks s) @ drop (Suc k) (tracks s)"
proof -
  show k: "k < length (tracks s)"
    using assms by (cases "k < length (tracks s)") (simp_all add: remove_track_def)
  let ?s3 = "(remove_traversed_critical_edge
                (s\<lparr>tracks := take k (tracks s) @ drop (Suc k) (tracks s)\<rparr>))
               \<lparr>service_time := service_time (remove_traversed_critical_edge
                  (s\<lparr>tracks := take k (tracks s) @ drop (Suc k) (tracks s)\<rparr>))
                  - time (tracks s ! k)\<rparr>"
  from assms k have "update_scores ?s3 = Inr s'"
    by (simp add: remove_track_def Let_def)
  from update_scores_tracks [OF this]
  show "tracks s' = take k (tracks s) @ drop (Suc k) (tracks s)"
    by simp
qed

lemma remove_marked_tracks:
  assumes "remove_marked rest k s = Inr s2" and "tracks s = pre @ rest"
    and "length pre = k"
  shows "tracks s2 = pre @ filter necessary rest"
  using assms
proof (induction rest arbitrary: s pre k)
  case Nil
  then show ?case by simp
next
  case (Cons t rest)
  show ?case
  proof (cases "necessary t")
    case True
    with Cons.prems have "remove_marked rest (Suc k) s = Inr s2"
      and "tracks s = (pre @ [t]) @ rest" and "length (pre @ [t]) = Suc k"
      by simp_all
    from Cons.IH [OF this] True show ?thesis by simp
  next
    case False
    from Cons.prems(1) False obtain s1 where r: "remove_track s k = Inr s1"
      by (cases "remove_track s k") simp_all
    with Cons.prems(1) False have m: "remove_marked rest k s1 = Inr s2"
      by simp
    have "tracks s1 = pre @ rest"
      using remove_track_Inr(2) [OF r] Cons.prems(2,3) by simp
    from Cons.IH [OF m this Cons.prems(3)] False show ?thesis by simp
  qed
qed

lemma add_edge_list_Inr:
  assumes "add_edge_list g (Track_init g) c = Inr t"
  shows "track_edges t = c" and "necessary t" and "sum_weights (G g) c 0 = Inr (time t)"
  using assms
  by (auto simp: add_edge_list_def Track_init_def update_time_def split: sum.splits)

lemma add_new_tracks_Inr:
  assumes "add_new_tracks g temp s = Inr s'"
  shows "\<exists>new. tracks s' = tracks s @ new \<and> map track_edges new = temp
           \<and> list_all (\<lambda>t. sum_weights (G g) (track_edges t) 0 = Inr (time t)) new"
  using assms
proof (induction temp arbitrary: s)
  case Nil
  then show ?case by simp
next
  case (Cons c temp)
  from Cons.prems obtain t where t: "add_edge_list g (Track_init g) c = Inr t"
    by (cases "add_edge_list g (Track_init g) c") simp_all
  from Cons.prems t obtain s1 where a: "add_track s t = Inr s1"
    by (cases "add_track s t") simp_all
  from Cons.prems t a have r: "add_new_tracks g temp s1 = Inr s'"
    by simp
  from Cons.IH [OF r] obtain new where new1: "tracks s' = tracks s1 @ new"
    and new2: "map track_edges new = temp"
    and new3: "list_all (\<lambda>t. sum_weights (G g) (track_edges t) 0 = Inr (time t)) new"
    by (elim exE conjE)
  have e: "track_edges t = c" and w: "sum_weights (G g) c 0 = Inr (time t)"
    using add_edge_list_Inr [OF t] by blast+
  have "tracks s' = tracks s @ (t # new)"
    using new1 add_track_Inr [OF a] by simp
  moreover have "map track_edges (t # new) = c # temp"
    using new2 e by simp
  moreover have "list_all (\<lambda>t. sum_weights (G g) (track_edges t) 0 = Inr (time t)) (t # new)"
    using new3 w by (simp add: e)
  ultimately show ?case
    by (intro exI [of _ "t # new"] conjI)
qed

lemma marked_same:
  assumes "marked t t0"
  shows "track_edges t = track_edges t0" and "time t = time t0"
    and "marked (t\<lparr>necessary := False\<rparr>) t0"
    and "necessary t \<longrightarrow> t = t0"
  using assms by (auto simp: marked_def)

lemma list_all2_marked_update:
  assumes "list_all2 marked ts ts0" and "i < length ts0"
  shows "list_all2 marked (ts[i := (ts ! i)\<lparr>necessary := False\<rparr>]) ts0"
proof -
  have len: "length ts = length ts0"
    using assms(1) by (rule list_all2_lengthD)
  have "marked (ts ! i) (ts0 ! i)"
    using assms len by (simp add: list_all2_nthD)
  then have "marked ((ts ! i)\<lparr>necessary := False\<rparr>) (ts0 ! i)"
    by (rule marked_same(3))
  from list_all2_update_cong [OF assms(1) this, of i] show ?thesis
    by simp
qed

lemma combine_step_cases:
  "combine_step ml ij (temp, ts) = (temp, ts)
   \<or> (\<exists>c. time (ts ! fst ij) + time (ts ! snd ij) < ml
          \<and> track_edges (ts ! fst ij) \<noteq> [] \<and> track_edges (ts ! snd ij) \<noteq> []
          \<and> splice (track_edges (ts ! fst ij)) (track_edges (ts ! snd ij)) = Some c
          \<and> combine_step ml ij (temp, ts)
              = (temp @ [c], ts[fst ij := (ts ! fst ij)\<lparr>necessary := False\<rparr>,
                               snd ij := (ts ! snd ij)\<lparr>necessary := False\<rparr>]))"
proof (cases "splice (track_edges (ts ! fst ij)) (track_edges (ts ! snd ij))")
  case None
  then show ?thesis by (simp add: combine_step_def Let_def)
next
  case (Some c)
  then show ?thesis by (simp add: combine_step_def Let_def)
qed

lemma combine_step_inv:
  assumes "fst ij < length ts0" and "snd ij < length ts0" and "fst ij \<noteq> snd ij"
    and "list_all2 marked ts ts0"
    and "list_all (spliced_from ml ts0) temp"
    and "temp = [] \<longrightarrow> ts = ts0"
    and "combine_step ml ij (temp, ts) = (temp', ts')"
  shows "list_all2 marked ts' ts0 \<and> list_all (spliced_from ml ts0) temp'
         \<and> (temp' = [] \<longrightarrow> ts' = ts0)"
  using combine_step_cases [of ml ij temp ts]
proof (elim disjE exE conjE)
  assume "combine_step ml ij (temp, ts) = (temp, ts)"
  with assms(7) have "temp' = temp" and "ts' = ts"
    by simp_all
  with assms(4-6) show ?thesis by simp
next
  fix c
  let ?i = "fst ij" and ?j = "snd ij"
  let ?ts1 = "ts[?i := (ts ! ?i)\<lparr>necessary := False\<rparr>]"
  assume cond: "time (ts ! ?i) + time (ts ! ?j) < ml" "track_edges (ts ! ?i) \<noteq> []"
      "track_edges (ts ! ?j) \<noteq> []"
    and c: "splice (track_edges (ts ! ?i)) (track_edges (ts ! ?j)) = Some c"
    and step: "combine_step ml ij (temp, ts)
        = (temp @ [c], ?ts1[?j := (ts ! ?j)\<lparr>necessary := False\<rparr>])"
  from step assms(7) have temp': "temp' = temp @ [c]"
    and ts': "ts' = ?ts1[?j := (ts ! ?j)\<lparr>necessary := False\<rparr>]"
    by simp_all
  have len: "length ts = length ts0"
    using assms(4) by (rule list_all2_lengthD)
  have mi: "marked (ts ! ?i) (ts0 ! ?i)" and mj: "marked (ts ! ?j) (ts0 ! ?j)"
    using assms(1,2,4) len by (simp_all add: list_all2_nthD)
  have "ts0 ! ?i \<in> set ts0" and "ts0 ! ?j \<in> set ts0"
    using assms(1,2) by simp_all
  moreover have "track_edges (ts0 ! ?i) \<noteq> [] \<and> track_edges (ts0 ! ?j) \<noteq> []
        \<and> time (ts0 ! ?i) + time (ts0 ! ?j) < ml
        \<and> splice (track_edges (ts0 ! ?i)) (track_edges (ts0 ! ?j)) = Some c"
    using cond c marked_same(1,2) [OF mi] marked_same(1,2) [OF mj] by simp
  ultimately have "spliced_from ml ts0 c"
    unfolding spliced_from_def by (intro bexI [of _ "ts0 ! ?i"] bexI [of _ "ts0 ! ?j"])
  then have t: "list_all (spliced_from ml ts0) temp'"
    using assms(5) temp' by simp
  have m1: "list_all2 marked ?ts1 ts0"
    using assms(4,1) by (rule list_all2_marked_update)
  have "?ts1 ! ?j = ts ! ?j"
    using assms(3) by simp
  with list_all2_marked_update [OF m1 assms(2)] have "list_all2 marked ts' ts0"
    by (simp add: ts')
  with t temp' show ?thesis by simp
qed

lemma combine_fold_inv:
  assumes "list_all (\<lambda>ij. fst ij < length ts0 \<and> snd ij < length ts0 \<and> fst ij \<noteq> snd ij) ps"
    and "list_all2 marked ts ts0"
    and "list_all (spliced_from ml ts0) temp"
    and "temp = [] \<longrightarrow> ts = ts0"
  shows "list_all2 marked (snd (fold (combine_step ml) ps (temp, ts))) ts0
         \<and> list_all (spliced_from ml ts0) (fst (fold (combine_step ml) ps (temp, ts)))
         \<and> (fst (fold (combine_step ml) ps (temp, ts)) = []
              \<longrightarrow> snd (fold (combine_step ml) ps (temp, ts)) = ts0)"
  using assms
proof (induction ps arbitrary: temp ts)
  case Nil
  then show ?case by simp
next
  case (Cons ij ps)
  obtain temp1 ts1 where st: "combine_step ml ij (temp, ts) = (temp1, ts1)"
    by (cases "combine_step ml ij (temp, ts)")
  from Cons.prems(1) have r: "fst ij < length ts0" "snd ij < length ts0" "fst ij \<noteq> snd ij"
    and rest: "list_all (\<lambda>ij. fst ij < length ts0 \<and> snd ij < length ts0 \<and> fst ij \<noteq> snd ij) ps"
    by simp_all
  from combine_step_inv [OF r Cons.prems(2,3,4) st]
  have "list_all2 marked ts1 ts0" and "list_all (spliced_from ml ts0) temp1"
    and "temp1 = [] \<longrightarrow> ts1 = ts0"
    by simp_all
  from Cons.IH [OF rest this] show ?case
    by (simp add: st)
qed

lemma combinations2_all:
  "list_all (\<lambda>ij. fst ij < n \<and> snd ij < n \<and> fst ij \<noteq> snd ij) (combinations2 n)"
  by (auto simp: list_all_iff combinations2_def)


lemma reversed_edges_Cons: "reversed_edges (e # es) = reversed_edges es @ [(snd e, fst e)]"
  by (simp add: reversed_edges_def)

lemma reversed_edges_ends:
  assumes "es \<noteq> []"
  shows "fst (hd (reversed_edges es)) = snd (last es)"
    and "snd (last (reversed_edges es)) = fst (hd es)"
    and "reversed_edges es \<noteq> []"
  using assms by (simp_all add: reversed_edges_def hd_map hd_rev last_map last_rev)

lemma contiguous_reversed:
  assumes "contiguous es"
  shows "contiguous (reversed_edges es)"
  using assms
proof (induction es)
  case Nil
  then show ?case by (simp add: reversed_edges_def)
next
  case (Cons e es)
  show ?case
  proof (cases "es = []")
    case True
    then show ?thesis by (simp add: reversed_edges_def)
  next
    case False
    with Cons.prems have "contiguous es" and "snd e = fst (hd es)"
      by (simp_all add: contiguous_Cons)
    with Cons.IH reversed_edges_ends(2,3) [OF False] show ?thesis
      by (simp add: reversed_edges_Cons contiguous_append)
  qed
qed

lemma splice_contiguous:
  assumes "contiguous a" and "contiguous b" and "a \<noteq> []" and "b \<noteq> []"
    and "splice a b = Some c"
  shows "contiguous c"
proof -
  note ra = reversed_edges_ends [OF assms(3)] and rb = reversed_edges_ends [OF assms(4)]
  note ca = contiguous_reversed [OF assms(1)] and cb = contiguous_reversed [OF assms(2)]
  consider (ss) "c = reversed_edges b @ a" "fst (hd a) = fst (hd b)"
    | (se) "c = b @ a" "fst (hd a) = snd (last b)"
    | (es) "c = a @ b" "snd (last a) = fst (hd b)"
    | (ee) "c = b @ reversed_edges a" "snd (last a) = snd (last b)"
    using assms(5) by (auto simp: splice_def Let_def split: if_splits)
  then show ?thesis
  proof cases
    case ss
    with assms(1) cb rb show ?thesis by (simp add: contiguous_append)
  next
    case se
    with assms(1,2) show ?thesis by (simp add: contiguous_append)
  next
    case es
    with assms(1,2) show ?thesis by (simp add: contiguous_append)
  next
    case ee
    with assms(2) ca ra show ?thesis by (simp add: contiguous_append)
  qed
qed

lemma combine_tracks_Inr:
  assumes "combine_tracks s ml g = Inr s'"
  shows "\<exists>ts new. list_all2 marked ts (tracks s)
           \<and> list_all (spliced_from ml (tracks s)) (map track_edges new)
           \<and> list_all (\<lambda>t. sum_weights (G g) (track_edges t) 0 = Inr (time t)) new
           \<and> (tracks s' = tracks s \<or> tracks s' = filter necessary ts @ new)"
proof -
  let ?st = "fold (combine_step ml) (combinations2 (length (tracks s))) ([], tracks s)"
  let ?s1 = "s\<lparr>tracks := snd ?st\<rparr>"
  have m0: "list_all2 marked (tracks s) (tracks s)"
    by (simp add: list_all2_same marked_def)
  from combine_fold_inv [OF combinations2_all m0, of ml "[]"]
  have m: "list_all2 marked (snd ?st) (tracks s)"
    and sp: "list_all (spliced_from ml (tracks s)) (fst ?st)"
    and e: "fst ?st = [] \<longrightarrow> snd ?st = tracks s"
    by simp_all
  show ?thesis
  proof (cases "fst ?st = []")
    case True
    with assms e have "tracks s' = tracks s"
      by (auto simp: combine_tracks_def Let_def)
    with m0 show ?thesis
      by (intro exI [of _ "tracks s"] exI [of _ "[]"]) simp
  next
    case False
    with assms obtain s2 where r: "remove_marked (snd ?st) 0 ?s1 = Inr s2"
      by (cases "remove_marked (snd ?st) 0 ?s1") (simp_all add: combine_tracks_def Let_def)
    with False assms have a: "add_new_tracks g (fst ?st) s2 = Inr s'"
      by (simp add: combine_tracks_def Let_def)
    have "tracks s2 = [] @ filter necessary (snd ?st)"
      by (rule remove_marked_tracks [OF r]) simp_all
    moreover from add_new_tracks_Inr [OF a] obtain new
      where "tracks s' = tracks s2 @ new" and n: "map track_edges new = fst ?st"
      and w: "list_all (\<lambda>t. sum_weights (G g) (track_edges t) 0 = Inr (time t)) new"
      by (elim exE conjE)
    ultimately have "tracks s' = filter necessary (snd ?st) @ new"
      by simp
    with m sp n w show ?thesis
      by (intro exI [of _ "snd ?st"] exI [of _ new]) simp
  qed
qed

lemma marked_necessary_original:
  assumes "list_all2 marked ts ts0" and "t \<in> set ts" and "necessary t"
  shows "t \<in> set ts0"
proof -
  from assms(2) obtain k where k: "k < length ts" "ts ! k = t"
    by (auto simp: in_set_conv_nth)
  have len: "length ts = length ts0"
    using assms(1) by (rule list_all2_lengthD)
  have "marked (ts ! k) (ts0 ! k)"
    using assms(1) k(1) by (simp add: list_all2_nthD)
  with marked_same(4) [OF this] assms(3) k have "t = ts0 ! k" by simp
  with k(1) len show ?thesis by simp
qed

lemma combine_tracks_track:
  assumes "combine_tracks s ml g = Inr s'" and "t \<in> set (tracks s')"
  shows "t \<in> set (tracks s)
         \<or> (spliced_from ml (tracks s) (track_edges t)
            \<and> sum_weights (G g) (track_edges t) 0 = Inr (time t))"
proof -
  from combine_tracks_Inr [OF assms(1)] obtain ts new
    where m: "list_all2 marked ts (tracks s)"
    and sp: "list_all (spliced_from ml (tracks s)) (map track_edges new)"
    and w: "list_all (\<lambda>t. sum_weights (G g) (track_edges t) 0 = Inr (time t)) new"
    and c: "tracks s' = tracks s \<or> tracks s' = filter necessary ts @ new"
    by (elim exE conjE)
  from c assms(2) consider (old) "t \<in> set (tracks s)"
    | (kept) "t \<in> set ts" "necessary t" | (new) "t \<in> set new"
    by auto
  then show ?thesis
  proof cases
    case old
    then show ?thesis by simp
  next
    case kept
    with marked_necessary_original [OF m] show ?thesis by simp
  next
    case new
    with sp w show ?thesis by (simp add: list_all_iff)
  qed
qed


lemma combine_tracks_contiguous:
  assumes "combine_tracks s ml g = Inr s'"
    and "list_all (\<lambda>t. contiguous (track_edges t)) (tracks s)"
  shows "list_all (\<lambda>t. contiguous (track_edges t)) (tracks s')"
  unfolding list_all_iff
proof
  fix t assume "t \<in> set (tracks s')"
  from combine_tracks_track [OF assms(1) this]
  show "contiguous (track_edges t)"
  proof
    assume "t \<in> set (tracks s)"
    with assms(2) show ?thesis by (simp add: list_all_iff)
  next
    assume "spliced_from ml (tracks s) (track_edges t)
      \<and> sum_weights (G g) (track_edges t) 0 = Inr (time t)"
    then obtain ti tj where "ti \<in> set (tracks s)" "tj \<in> set (tracks s)"
      "track_edges ti \<noteq> []" "track_edges tj \<noteq> []"
      "splice (track_edges ti) (track_edges tj) = Some (track_edges t)"
      unfolding spliced_from_def by (elim conjE bexE)
    with assms(2) show ?thesis
      by (auto simp: list_all_iff intro: splice_contiguous)
  qed
qed

lemma generate_service_contiguous:
  assumes "generate_service g max_track_amount max_track_length rs = Some (Inr (s, rs'))"
  shows "list_all (\<lambda>t. contiguous (track_edges t)) (tracks s)"
proof -
  from assms obtain s0 pool rs0
    where b: "build_tracks g max_track_amount max_track_length (Service_init g) (edges g) rs
                = Some (Inr (s0, pool, rs0))"
    and c: "combine_tracks (remove_unnecessary_tracks s0 g) max_track_length g = Inr s"
    by (auto simp: generate_service_def split: option.splits sum.splits)
  have "list_all (\<lambda>t. contiguous (track_edges t)) (tracks s0)"
    using build_tracks_service_inv [OF b] by (simp add: service_inv_def)
  then have "list_all (\<lambda>t. contiguous (track_edges t)) (tracks (remove_unnecessary_tracks s0 g))"
    by (simp add: remove_unnecessary_tracks_def list_all_iff)
  with c show ?thesis by (rule combine_tracks_contiguous)
qed

lemma algo_loop_contiguous:
  assumes "algo_loop n g max_track_amount max_track_length all_services rs = Some (Inr batch)"
    and "list_all (\<lambda>s. list_all (\<lambda>t. contiguous (track_edges t)) (tracks s)) all_services"
  shows "list_all (\<lambda>s. list_all (\<lambda>t. contiguous (track_edges t)) (tracks s)) batch"
  using assms
proof (induction n arbitrary: all_services rs)
  case 0
  then show ?case by simp
next
  case (Suc n)
  from Suc.prems(1) obtain s rs1
    where g: "generate_service g max_track_amount max_track_length rs = Some (Inr (s, rs1))"
    and l: "algo_loop n g max_track_amount max_track_length (all_services @ [s]) rs1
              = Some (Inr batch)"
    by (auto split: option.splits sum.splits)
  from generate_service_contiguous [OF g] Suc.prems(2)
  have "list_all (\<lambda>s. list_all (\<lambda>t. contiguous (track_edges t)) (tracks s))
          (all_services @ [s])"
    by simp
  from Suc.IH [OF l this] show ?case .
qed

text \<open>
  Claim C8. Every track of every service that \<open>algo\<close> returns is contiguous: the
  end node of each edge is the start node of the next. This covers the tracks that
  the merge pass builds by \<open>add_edge_list\<close>.
\<close>

theorem returned_tracks_contiguous:
  assumes "algo g max_track_amount max_track_length iterator rs = Some (Inr batch)"
  shows "\<forall>s\<in>set batch. \<forall>t\<in>set (tracks s). contiguous (track_edges t)"
proof -
  from assms have "algo_loop (nat iterator) g max_track_amount max_track_length [] rs
      = Some (Inr batch)"
    by (simp add: algo_def split: if_splits)
  from algo_loop_contiguous [OF this] show ?thesis
    by (simp add: list_all_iff)
qed

section \<open>Weights of a constructed graph\<close>

lemma map_of_nx_add_node:
  "map_of (nx_add_node n adj) x =
     (case map_of adj x of Some nbrs \<Rightarrow> Some nbrs | None \<Rightarrow> if x = n then Some [] else None)"
proof (cases "n \<in> fst ` set adj")
  case True
  then have "map_of adj n \<noteq> None"
    by (simp add: map_of_eq_None_iff)
  with True show ?thesis
    by (auto simp: nx_add_node_def split: option.splits)
next
  case False
  then show ?thesis
    by (auto simp: nx_add_node_def map_add_def split: option.splits)
qed

lemma map_of_nx_set_adj:
  "map_of (nx_set_adj u v d adj) x =
     (if x = u then map_option (AList.update v d) (map_of adj x) else map_of adj x)"
  by (induction adj) (auto simp: nx_set_adj_def)

lemma nx_weight_add_node: "nx_weight (nx_add_node n adj) x y = nx_weight adj x y"
  by (simp add: nx_weight_def map_of_nx_add_node split: option.splits)

lemma nx_weight_set_adj:
  assumes "map_of adj u \<noteq> None"
  shows "nx_weight (nx_set_adj u v d adj) x y =
           (if x = u \<and> y = v then Inr (weight d) else nx_weight adj x y)"
  using assms
  by (auto simp: nx_weight_def map_of_nx_set_adj update_conv' split: option.splits)

lemma nx_weight_add_edge:
  "nx_weight (nx_add_edge u v d adj) x y =
     (if (x = u \<and> y = v) \<or> (x = v \<and> y = u) then Inr (weight d) else nx_weight adj x y)"
proof -
  let ?adj2 = "nx_add_node v (nx_add_node u adj)"
  have u: "map_of ?adj2 u \<noteq> None" and v: "map_of ?adj2 v \<noteq> None"
    by (auto simp: map_of_nx_add_node split: option.splits)
  have v': "map_of (nx_set_adj u v d ?adj2) v \<noteq> None"
    using u v by (auto simp: map_of_nx_set_adj)
  have e1: "nx_weight (nx_set_adj v u d (nx_set_adj u v d ?adj2)) x y =
      (if x = v \<and> y = u then Inr (weight d) else nx_weight (nx_set_adj u v d ?adj2) x y)"
    by (rule nx_weight_set_adj [OF v'])
  have e2: "nx_weight (nx_set_adj u v d ?adj2) x y =
      (if x = u \<and> y = v then Inr (weight d) else nx_weight ?adj2 x y)"
    by (rule nx_weight_set_adj [OF u])
  have e3: "nx_weight ?adj2 x y = nx_weight adj x y"
    by (simp only: nx_weight_add_node)
  show ?thesis
    unfolding nx_add_edge_def e1 e2 e3 by argo
qed

lemma add_csv_edges_symmetric:
  assumes "\<forall>x y. nx_weight adj x y = nx_weight adj y x"
  shows "nx_weight (add_csv_edges crit rows adj) x y = nx_weight (add_csv_edges crit rows adj) y x"
  using assms
proof (induction crit rows adj rule: add_csv_edges.induct)
  case (1 crit adj)
  then show ?case by simp
next
  case (2 crit station_0 station_1 w rows adj)
  have s: "\<forall>x y. nx_weight (nx_add_edge station_0 station_1 d adj) x y
      = nx_weight (nx_add_edge station_0 station_1 d adj) y x" for d
    using "2.prems" by (simp add: nx_weight_add_edge)
  show ?case
  proof (cases "station_0 \<in> set crit \<or> station_1 \<in> set crit")
    case True
    with "2.IH"(1) [OF True s] show ?thesis by simp
  next
    case False
    with "2.IH"(2) [OF False s] show ?thesis by simp
  qed
qed

lemma add_csv_nodes_no_edges:
  assumes "list_all (\<lambda>p. snd p = []) adj"
  shows "list_all (\<lambda>p. snd p = []) (fst (add_csv_nodes rows adj crit))"
  using assms
  by (induction rows adj crit rule: add_csv_nodes.induct) (simp_all add: nx_add_node_def)

lemma nx_weight_no_edges:
  assumes "list_all (\<lambda>p. snd p = []) adj"
  shows "nx_weight adj x y = Inl KeyError"
proof (cases "map_of adj x")
  case None
  then show ?thesis by (simp add: nx_weight_def)
next
  case (Some nbrs)
  then have "(x, nbrs) \<in> set adj" by (rule map_of_SomeD)
  with assms have "nbrs = []" by (auto simp: list_all_iff)
  with Some show ?thesis by (simp add: nx_weight_def)
qed

lemma Graph_init_symmetric:
  "nx_weight (G (Graph_init node_file edge_file)) x y
   = nx_weight (G (Graph_init node_file edge_file)) y x"
proof -
  obtain adj0 crit where n: "add_csv_nodes node_file [] [] = (adj0, crit)"
    by (cases "add_csv_nodes node_file [] []")
  have "list_all (\<lambda>p. snd p = []) (fst (add_csv_nodes node_file [] []))"
    by (rule add_csv_nodes_no_edges) simp
  with n have "\<forall>x y. nx_weight adj0 x y = nx_weight adj0 y x"
    by (simp add: nx_weight_no_edges)
  from add_csv_edges_symmetric [OF this] n show ?thesis
    by (simp add: Graph_init_def Let_def)
qed


lemma sum_weights_acc:
  "sum_weights adj es acc =
     (case sum_weights adj es 0 of Inl err \<Rightarrow> Inl err | Inr w \<Rightarrow> Inr (acc + w))"
proof (induction es arbitrary: acc)
  case Nil
  then show ?case by simp
next
  case (Cons e es)
  obtain a b where e: "e = (a, b)" by (cases e)
  show ?case
  proof (cases "nx_weight adj a b")
    case (Inl err)
    with e show ?thesis by simp
  next
    case (Inr w)
    with e Cons.IH [of "acc + w"] Cons.IH [of w] show ?thesis
      by (simp split: sum.splits)
  qed
qed

lemma sum_weights_Cons:
  assumes "sum_weights adj (e # es) 0 = Inr w"
  shows "\<exists>we. nx_weight adj (fst e) (snd e) = Inr we \<and> sum_weights adj es 0 = Inr (w - we)"
proof -
  obtain a b where e: "e = (a, b)" by (cases e)
  from assms e obtain we where we: "nx_weight adj a b = Inr we"
    by (cases "nx_weight adj a b") simp_all
  with assms e have "sum_weights adj es we = Inr w" by simp
  then have "sum_weights adj es 0 = Inr (w - we)"
    by (subst (asm) sum_weights_acc) (auto split: sum.splits)
  with we e show ?thesis by simp
qed

lemma sum_weights_append:
  assumes "sum_weights adj a 0 = Inr wa" and "sum_weights adj b 0 = Inr wb"
  shows "sum_weights adj (a @ b) 0 = Inr (wa + wb)"
  using assms(1)
proof (induction a arbitrary: wa)
  case Nil
  with assms(2) show ?case by simp
next
  case (Cons e a)
  from sum_weights_Cons [OF Cons.prems] obtain we
    where we: "nx_weight adj (fst e) (snd e) = Inr we" and r: "sum_weights adj a 0 = Inr (wa - we)"
    by (elim exE conjE)
  have "sum_weights adj ((e # a) @ b) 0 = sum_weights adj (a @ b) we"
    using we by (cases e) simp
  also have "\<dots> = Inr (we + (wa - we + wb))"
    using Cons.IH [OF r] by (subst sum_weights_acc) simp
  finally show ?case by simp
qed

lemma sum_weights_reversed:
  assumes "\<forall>x y. nx_weight adj x y = nx_weight adj y x"
    and "sum_weights adj es 0 = Inr w"
  shows "sum_weights adj (reversed_edges es) 0 = Inr w"
  using assms(2)
proof (induction es arbitrary: w)
  case Nil
  then show ?case by (simp add: reversed_edges_def)
next
  case (Cons e es)
  from sum_weights_Cons [OF Cons.prems] obtain we
    where we: "nx_weight adj (fst e) (snd e) = Inr we" and r: "sum_weights adj es 0 = Inr (w - we)"
    by (elim exE conjE)
  have "nx_weight adj (snd e) (fst e) = Inr we"
    using we assms(1) by simp
  then have "sum_weights adj [(snd e, fst e)] 0 = Inr we"
    by simp
  from sum_weights_append [OF Cons.IH [OF r] this] show ?case
    by (simp add: reversed_edges_Cons)
qed

lemma splice_weights:
  assumes "\<forall>x y. nx_weight adj x y = nx_weight adj y x"
    and "sum_weights adj a 0 = Inr wa" and "sum_weights adj b 0 = Inr wb"
    and "splice a b = Some c"
  shows "sum_weights adj c 0 = Inr (wa + wb)"
proof -
  note ra = sum_weights_reversed [OF assms(1,2)] and rb = sum_weights_reversed [OF assms(1,3)]
  consider "c = reversed_edges b @ a" | "c = b @ a" | "c = a @ b" | "c = b @ reversed_edges a"
    using assms(4) by (auto simp: splice_def Let_def split: if_splits)
  then show ?thesis
  proof cases
    case 1
    with sum_weights_append [OF rb assms(2)] show ?thesis by (simp add: ac_simps)
  next
    case 2
    with sum_weights_append [OF assms(3,2)] show ?thesis by (simp add: ac_simps)
  next
    case 3
    with sum_weights_append [OF assms(2,3)] show ?thesis by simp
  next
    case 4
    with sum_weights_append [OF assms(3) ra] show ?thesis by (simp add: ac_simps)
  qed
qed

text \<open>
  Claim C9. For every graph that the constructor builds, every service whose tracks
  have the time that \<open>update_time\<close> gave them, and every maximum: a track of the
  merged service that is not one of the tracks it had before is the splice of two
  of them whose times together are under the maximum, and its time is their sum.
\<close>

theorem merged_track_time:
  assumes "combine_tracks s max_track_length (Graph_init node_file edge_file) = Inr s'"
    and "list_all (\<lambda>t. sum_weights (G (Graph_init node_file edge_file)) (track_edges t) 0
                      = Inr (time t)) (tracks s)"
    and "t \<in> set (tracks s')" and "t \<notin> set (tracks s)"
  shows "time t < max_track_length
         \<and> (\<exists>ti\<in>set (tracks s). \<exists>tj\<in>set (tracks s).
               time ti + time tj < max_track_length \<and> time t = time ti + time tj
               \<and> splice (track_edges ti) (track_edges tj) = Some (track_edges t))"
proof -
  let ?g = "Graph_init node_file edge_file"
  from combine_tracks_track [OF assms(1,3)] assms(4)
  have sp: "spliced_from max_track_length (tracks s) (track_edges t)"
    and w: "sum_weights (G ?g) (track_edges t) 0 = Inr (time t)"
    by simp_all
  from sp obtain ti tj where i: "ti \<in> set (tracks s)" and j: "tj \<in> set (tracks s)"
    and lt: "time ti + time tj < max_track_length"
    and c: "splice (track_edges ti) (track_edges tj) = Some (track_edges t)"
    unfolding spliced_from_def by (elim bexE conjE)
  have wi: "sum_weights (G ?g) (track_edges ti) 0 = Inr (time ti)"
    and wj: "sum_weights (G ?g) (track_edges tj) 0 = Inr (time tj)"
    using assms(2) i j by (simp_all add: list_all_iff)
  have "\<forall>x y. nx_weight (G ?g) x y = nx_weight (G ?g) y x"
    by (simp add: Graph_init_symmetric)
  from splice_weights [OF this wi wj c] w have eq: "time t = time ti + time tj"
    by simp
  with lt have "time t < max_track_length" by simp
  moreover have "\<exists>ti\<in>set (tracks s). \<exists>tj\<in>set (tracks s).
               time ti + time tj < max_track_length \<and> time t = time ti + time tj
               \<and> splice (track_edges ti) (track_edges tj) = Some (track_edges t)"
    using i j lt eq c by (intro bexI [of _ ti] bexI [of _ tj] conjI)
  ultimately show ?thesis by (rule conjI)
qed

section \<open>A run with a merge\<close>

lemma merge_run:
  "\<exists>s. algo two_triangles 5 100 1 (draws_second_at [2, 3, 4, 6, 7, 8]) = Some (Inr [s])
       \<and> map track_edges (tracks s)
           = [[(''X'', ''U''), (''U'', ''V''), (''V'', ''X''), (''X'', ''Y''), (''Y'', ''Z''),
               (''Z'', ''W''), (''W'', ''Y'')]]"
proof -
  have "(case algo two_triangles 5 100 1 (draws_second_at [2, 3, 4, 6, 7, 8]) of
           Some (Inr [s]) \<Rightarrow>
             map track_edges (tracks s)
               = [[(''X'', ''U''), (''U'', ''V''), (''V'', ''X''), (''X'', ''Y''), (''Y'', ''Z''),
                   (''Z'', ''W''), (''W'', ''Y'')]]
         | _ \<Rightarrow> False)"
    by code_simp
  then show ?thesis
    by (auto split: option.splits sum.splits list.splits)
qed

theorem returned_tracks_contiguous_witness:
  "\<exists>s. algo two_triangles 5 100 1 (draws_second_at [2, 3, 4, 6, 7, 8]) = Some (Inr [s])
       \<and> map track_edges (tracks s)
           = [[(''X'', ''U''), (''U'', ''V''), (''V'', ''X''), (''X'', ''Y''), (''Y'', ''Z''),
               (''Z'', ''W''), (''W'', ''Y'')]]
       \<and> list_all (\<lambda>t. contiguous (track_edges t)) (tracks s)"
proof -
  from merge_run obtain s
    where r: "algo two_triangles 5 100 1 (draws_second_at [2, 3, 4, 6, 7, 8]) = Some (Inr [s])"
    and t: "map track_edges (tracks s)
           = [[(''X'', ''U''), (''U'', ''V''), (''V'', ''X''), (''X'', ''Y''), (''Y'', ''Z''),
               (''Z'', ''W''), (''W'', ''Y'')]]"
    by (elim exE conjE)
  from returned_tracks_contiguous [OF r]
  have "list_all (\<lambda>t. contiguous (track_edges t)) (tracks s)"
    by (simp add: list_all_iff)
  with r t show ?thesis
    by (intro exI [of _ s] conjI)
qed

lemma two_walks_tracks:
  "map track_edges (tracks two_walks)
     = [[(''X'', ''Y''), (''Y'', ''Z''), (''Z'', ''W''), (''W'', ''Y'')],
        [(''X'', ''V''), (''V'', ''U''), (''U'', ''X'')]]"
  "map time (tracks two_walks) = [20, 15]"
  "list_all (\<lambda>t. sum_weights (G two_triangles) (track_edges t) 0 = Inr (time t))
     (tracks two_walks)"
  by code_simp+

lemma two_walks_merged:
  "\<exists>s' t. combine_tracks two_walks 100 two_triangles = Inr s' \<and> tracks s' = [t]
      \<and> track_edges t
          = [(''X'', ''U''), (''U'', ''V''), (''V'', ''X''), (''X'', ''Y''), (''Y'', ''Z''),
             (''Z'', ''W''), (''W'', ''Y'')]"
proof -
  have "(case combine_tracks two_walks 100 two_triangles of
           Inr s' \<Rightarrow>
             (case tracks s' of
                [t] \<Rightarrow> track_edges t
                  = [(''X'', ''U''), (''U'', ''V''), (''V'', ''X''), (''X'', ''Y''), (''Y'', ''Z''),
                     (''Z'', ''W''), (''W'', ''Y'')]
              | _ \<Rightarrow> False)
         | _ \<Rightarrow> False)"
    by code_simp
  then show ?thesis
    by (auto split: sum.splits list.splits)
qed

theorem merged_track_time_witness:
  "\<exists>s' t. combine_tracks two_walks 100 two_triangles = Inr s'
      \<and> map time (tracks two_walks) = [20, 15]
      \<and> tracks s' = [t] \<and> t \<notin> set (tracks two_walks)
      \<and> time t < 100"
proof -
  from two_walks_merged obtain s' t
    where c: "combine_tracks two_walks 100 two_triangles = Inr s'" and t: "tracks s' = [t]"
    and e: "track_edges t
          = [(''X'', ''U''), (''U'', ''V''), (''V'', ''X''), (''X'', ''Y''), (''Y'', ''Z''),
             (''Z'', ''W''), (''W'', ''Y'')]"
    by (elim exE conjE)
  have "track_edges t \<notin> set (map track_edges (tracks two_walks))"
    by (simp add: two_walks_tracks(1) e)
  then have n: "t \<notin> set (tracks two_walks)"
    by auto
  have m: "t \<in> set (tracks s')"
    using t by simp
  from merged_track_time [OF c [unfolded two_triangles_def]
      two_walks_tracks(3) [unfolded two_triangles_def] m n]
  have "time t < 100" by (rule conjunct1)
  with c t n two_walks_tracks(2) show ?thesis
    by (intro exI [of _ s'] exI [of _ t] conjI)
qed

section \<open>The path of four stations\<close>

lemma walk_consume:
  assumes "filter (\<lambda>e. cur = fst e \<or> cur = snd e) pool \<noteq> []" and "\<not> time t > ml"
    and "get_neighbour_with_untraversed_edge pool g cur rs = Some (Inr (nb, rs'))"
    and "add_edge g t (cur, nb) = Inr (t', printed)"
  shows "walk g ml s pool t cur rs = walk g ml s (remove_traversed cur nb pool) t' nb rs'"
  by (subst walk.simps) (simp add: assms)

lemma walk_consume_None:
  assumes "filter (\<lambda>e. cur = fst e \<or> cur = snd e) pool \<noteq> []" and "\<not> time t > ml"
    and "get_neighbour_with_untraversed_edge pool g cur rs = None"
  shows "walk g ml s pool t cur rs = None"
  by (subst walk.simps) (simp add: assms)

lemma walk_stop:
  assumes "filter (\<lambda>e. cur = fst e \<or> cur = snd e) pool = []" and "\<not> time t > ml"
    and "add_track s t = Inr s'"
  shows "walk g ml s pool t cur rs = Some (Inr (s', pool, rs))"
  by (subst walk.simps) (simp add: assms)

lemma service_ABCD_built: "add_track (Service_init path4) track_ABCD = Inr service_ABCD"
  by code_simp
lemma service_DCBA_built: "add_track (Service_init path4) track_DCBA = Inr service_DCBA"
  by code_simp
lemma path4_tracks_built: "add_edge path4 track_AB (''B'', ''C'') = Inr (track_ABC, [])"
  "add_edge path4 track_ABC (''C'', ''D'') = Inr (track_ABCD, [])"
  "add_edge path4 (Track_init path4) (''D'', ''C'') = Inr (track_DC, [])"
  "add_edge path4 track_DC (''C'', ''B'') = Inr (track_DCB, [])"
  "add_edge path4 track_DCB (''B'', ''A'') = Inr (track_DCBA, [])"
  by code_simp+
lemma path4_optimised: "combine_tracks (remove_unnecessary_tracks service_ABCD path4) 100 path4 = Inr service_ABCD"
  "combine_tracks (remove_unnecessary_tracks service_DCBA path4) 100 path4 = Inr service_DCBA"
  by code_simp+
lemma path4_neighbours: "nx_neighbors (G path4) ''A'' = Inr [''B'']"
  "nx_neighbors (G path4) ''C'' = Inr [''B'', ''D'']"
  "nx_neighbors (G path4) ''D'' = Inr [''C'']"
  "nodes_with_one_edge (edges path4) = [''A'', ''D'']"
  by code_simp+

lemma fair_shift:
  assumes "fair rs"
  shows "fair (\<lambda>i. rs (i + k))"
proof -
  have h: "\<forall>n. \<exists>m\<ge>n. P (rs (m + k))" if "\<forall>n. \<exists>m\<ge>n. P (rs m)" for P :: "nat \<Rightarrow> bool"
  proof
    fix n
    from that obtain m where "m \<ge> n + k" and "P (rs m)" by blast
    then have "m - k \<ge> n" and "P (rs (m - k + k))" by simp_all
    then show "\<exists>m\<ge>n. P (rs (m + k))" by blast
  qed
  from assms have "\<forall>n. \<exists>m\<ge>n. even (rs m)" and "\<forall>n. \<exists>m\<ge>n. odd (rs m)"
    by (simp_all add: fair_def)
  from h [of even, OF this(1)] h [of odd, OF this(2)] show ?thesis
    by (simp add: fair_def)
qed

lemma fair_hits:
  assumes "fair rs" and "j < n" and "n \<le> 2"
  shows "\<exists>k. rs k mod n = j"
proof -
  from assms(1) obtain k0 k1 where "even (rs k0)" and "odd (rs k1)"
    unfolding fair_def by blast
  then have "rs k0 mod 2 = 0" and "rs k1 mod 2 = 1"
    by (simp_all add: even_iff_mod_2_eq_zero odd_iff_mod_2_eq_one)
  moreover have "rs k0 mod 1 = 0" by simp
  moreover from assms(2,3) have "(n = 1 \<and> j = 0) \<or> (n = 2 \<and> (j = 0 \<or> j = 1))"
    by arith
  ultimately show ?thesis by metis
qed

lemma get_neighbour_cases:
  assumes "nx_neighbors (G g) current_node = Inr nbrs" and "nbrs \<noteq> []"
  shows "(\<exists>k. joined pool current_node (nbrs ! (rs k mod length nbrs))
            \<and> get_neighbour_with_untraversed_edge pool g current_node rs
                = Some (Inr (nbrs ! (rs k mod length nbrs), (\<lambda>i. rs (i + Suc k)))))
         \<or> ((\<forall>k. \<not> joined pool current_node (nbrs ! (rs k mod length nbrs)))
            \<and> get_neighbour_with_untraversed_edge pool g current_node rs = None)"
proof (cases "\<exists>k. joined pool current_node (nbrs ! (rs k mod length nbrs))")
  case False
  with get_neighbour_no_hit [OF assms] show ?thesis by simp
next
  case True
  define k where "k = (LEAST k. joined pool current_node (nbrs ! (rs k mod length nbrs)))"
  from True have hit: "joined pool current_node (nbrs ! (rs k mod length nbrs))"
    unfolding k_def by (rule LeastI_ex)
  have "\<forall>i<k. \<not> joined pool current_node (nbrs ! (rs i mod length nbrs))"
    unfolding k_def using not_less_Least by blast
  from get_neighbour_first_hit [OF assms hit this] hit show ?thesis by blast
qed

lemma walk_stage:
  assumes rem: "filter (\<lambda>e. cur = fst e \<or> cur = snd e) pool \<noteq> []" and tm: "\<not> time t > ml"
    and nbrs: "nx_neighbors (G g) cur = Inr nbrs" and len: "length nbrs \<le> 2"
    and only: "filter (joined pool cur) nbrs = [nb]"
    and add: "add_edge g t (cur, nb) = Inr (t', printed)"
    and pool': "remove_traversed cur nb pool = pool'"
    and nxt: "\<forall>rs'. (\<exists>k. walk g ml s pool' t' nb rs' = Some (Inr (sf, pf, (\<lambda>i. rs' (i + k)))))
                  \<or> (walk g ml s pool' t' nb rs' = None \<and> \<not> fair rs')"
  shows "(\<exists>k. walk g ml s pool t cur rs = Some (Inr (sf, pf, (\<lambda>i. rs (i + k)))))
         \<or> (walk g ml s pool t cur rs = None \<and> \<not> fair rs)"
proof -
  have nb_in: "nb \<in> set (filter (joined pool cur) nbrs)"
    by (simp add: only)
  then have ne: "nbrs \<noteq> []" by auto
  have uniq: "x = nb" if "x \<in> set nbrs" and "joined pool cur x" for x
  proof -
    from that have "x \<in> set (filter (joined pool cur) nbrs)" by simp
    then show ?thesis by (simp add: only)
  qed
  from get_neighbour_cases [OF nbrs ne, of pool rs] show ?thesis
  proof (elim disjE exE conjE)
    fix k
    let ?rs' = "\<lambda>i. rs (i + Suc k)"
    assume j: "joined pool cur (nbrs ! (rs k mod length nbrs))"
      and r: "get_neighbour_with_untraversed_edge pool g cur rs
                = Some (Inr (nbrs ! (rs k mod length nbrs), ?rs'))"
    have "nbrs ! (rs k mod length nbrs) \<in> set nbrs"
      using ne by simp
    from uniq [OF this j] r
    have "get_neighbour_with_untraversed_edge pool g cur rs = Some (Inr (nb, ?rs'))"
      by simp
    from walk_consume [OF rem tm this add]
    have w: "walk g ml s pool t cur rs = walk g ml s pool' t' nb ?rs'"
      by (simp add: pool')
    from nxt have "(\<exists>k'. walk g ml s pool' t' nb ?rs' = Some (Inr (sf, pf, (\<lambda>i. ?rs' (i + k')))))
        \<or> (walk g ml s pool' t' nb ?rs' = None \<and> \<not> fair ?rs')"
      by (rule spec)
    then show ?thesis
    proof (elim disjE exE conjE)
      fix k'
      assume "walk g ml s pool' t' nb ?rs' = Some (Inr (sf, pf, (\<lambda>i. ?rs' (i + k'))))"
      with w have "walk g ml s pool t cur rs = Some (Inr (sf, pf, (\<lambda>i. rs (i + (k' + Suc k)))))"
        by (simp add: add.assoc)
      then show ?thesis by blast
    next
      assume "walk g ml s pool' t' nb ?rs' = None" and "\<not> fair ?rs'"
      with w fair_shift [of rs "Suc k"] show ?thesis by auto
    qed
  next
    assume miss: "\<forall>k. \<not> joined pool cur (nbrs ! (rs k mod length nbrs))"
      and r: "get_neighbour_with_untraversed_edge pool g cur rs = None"
    have w: "walk g ml s pool t cur rs = None"
      using rem tm r by (rule walk_consume_None)
    have "\<not> fair rs"
    proof
      assume f: "fair rs"
      from nb_in obtain j where j: "j < length nbrs" "nbrs ! j = nb"
        by (auto simp: in_set_conv_nth)
      from fair_hits [OF f j(1) len] obtain k where "rs k mod length nbrs = j" by blast
      with j(2) nb_in miss show False by auto
    qed
    with w show ?thesis by simp
  qed
qed


lemma build_tracks_step:
  assumes "pool \<noteq> []" and "int (length (tracks s)) < ma"
    and "get_one_edge_node pool g s rs = Inr (cur, rs')"
  shows "build_tracks g ma ml s pool rs =
           (case walk g ml s pool (Track_init g) cur rs' of
              None \<Rightarrow> None
            | Some (Inl err) \<Rightarrow> Some (Inl err)
            | Some (Inr (s', pool', rs'')) \<Rightarrow> build_tracks g ma ml s' pool' rs'')"
  by (subst build_tracks.simps) (simp add: assms)

lemma build_tracks_done:
  assumes "pool = [] \<or> \<not> int (length (tracks s)) < ma"
  shows "build_tracks g ma ml s pool rs = Some (Inr (s, pool, rs))"
  using assms by (subst build_tracks.simps) auto

lemma path4_side:
  "filter (\<lambda>e. ''A'' = fst e \<or> ''A'' = snd e) (edges path4) \<noteq> []"
  "filter (\<lambda>e. ''D'' = fst e \<or> ''D'' = snd e) (edges path4) \<noteq> []"
  "filter (\<lambda>e. ''B'' = fst e \<or> ''B'' = snd e) [(''B'', ''C''), (''C'', ''D'')] \<noteq> []"
  "filter (\<lambda>e. ''C'' = fst e \<or> ''C'' = snd e) [(''C'', ''D'')] \<noteq> []"
  "filter (\<lambda>e. ''C'' = fst e \<or> ''C'' = snd e) [(''A'', ''B''), (''B'', ''C'')] \<noteq> []"
  "filter (\<lambda>e. ''B'' = fst e \<or> ''B'' = snd e) [(''A'', ''B'')] \<noteq> []"
  "filter (\<lambda>e. ''D'' = fst e \<or> ''D'' = snd e) [] = []"
  "filter (\<lambda>e. ''A'' = fst e \<or> ''A'' = snd e) [] = []"
  "\<not> time (Track_init path4) > 100" "\<not> time track_AB > 100" "\<not> time track_ABC > 100"
  "\<not> time track_ABCD > 100" "\<not> time track_DC > 100" "\<not> time track_DCB > 100"
  "\<not> time track_DCBA > 100"
  by code_simp+

lemma path4_only:
  "filter (joined (edges path4) ''A'') [''B''] = [''B'']"
  "filter (joined [(''B'', ''C''), (''C'', ''D'')] ''B'') [''A'', ''C''] = [''C'']"
  "filter (joined [(''C'', ''D'')] ''C'') [''B'', ''D''] = [''D'']"
  "filter (joined (edges path4) ''D'') [''C''] = [''C'']"
  "filter (joined [(''A'', ''B''), (''B'', ''C'')] ''C'') [''B'', ''D''] = [''B'']"
  "filter (joined [(''A'', ''B'')] ''B'') [''A'', ''C''] = [''A'']"
  by code_simp+

lemma path4_removed:
  "remove_traversed ''A'' ''B'' (edges path4) = [(''B'', ''C''), (''C'', ''D'')]"
  "remove_traversed ''B'' ''C'' [(''B'', ''C''), (''C'', ''D'')] = [(''C'', ''D'')]"
  "remove_traversed ''C'' ''D'' [(''C'', ''D'')] = []"
  "remove_traversed ''D'' ''C'' (edges path4) = [(''A'', ''B''), (''B'', ''C'')]"
  "remove_traversed ''C'' ''B'' [(''A'', ''B''), (''B'', ''C'')] = [(''A'', ''B'')]"
  "remove_traversed ''B'' ''A'' [(''A'', ''B'')] = []"
  by code_simp+

lemma walk_from_A:
  "(\<exists>k. walk path4 100 (Service_init path4) (edges path4) (Track_init path4) ''A'' rs
         = Some (Inr (service_ABCD, [], (\<lambda>i. rs (i + k)))))
   \<or> (walk path4 100 (Service_init path4) (edges path4) (Track_init path4) ''A'' rs = None
      \<and> \<not> fair rs)"
proof -
  have a3: "\<forall>rs'. (\<exists>k. walk path4 100 (Service_init path4) [] track_ABCD ''D'' rs'
                 = Some (Inr (service_ABCD, [], (\<lambda>i. rs' (i + k)))))
      \<or> (walk path4 100 (Service_init path4) [] track_ABCD ''D'' rs' = None \<and> \<not> fair rs')"
  proof
    fix rs'
    have "walk path4 100 (Service_init path4) [] track_ABCD ''D'' rs'
        = Some (Inr (service_ABCD, [], (\<lambda>i. rs' (i + 0))))"
      using walk_stop [OF path4_side(7) path4_side(12) service_ABCD_built, of path4 rs'] by simp
    then show "(\<exists>k. walk path4 100 (Service_init path4) [] track_ABCD ''D'' rs'
                 = Some (Inr (service_ABCD, [], (\<lambda>i. rs' (i + k)))))
      \<or> (walk path4 100 (Service_init path4) [] track_ABCD ''D'' rs' = None \<and> \<not> fair rs')"
      by blast
  qed
  have a2: "\<forall>rs'. (\<exists>k. walk path4 100 (Service_init path4) [(''C'', ''D'')] track_ABC ''C'' rs'
                 = Some (Inr (service_ABCD, [], (\<lambda>i. rs' (i + k)))))
      \<or> (walk path4 100 (Service_init path4) [(''C'', ''D'')] track_ABC ''C'' rs' = None
         \<and> \<not> fair rs')"
    by (intro allI walk_stage [OF path4_side(4) path4_side(11) path4_neighbours(2) _ path4_only(3) path4_tracks_built(2)
          path4_removed(3) a3]) simp
  have a1: "\<forall>rs'. (\<exists>k. walk path4 100 (Service_init path4) [(''B'', ''C''), (''C'', ''D'')]
                    track_AB ''B'' rs'
                 = Some (Inr (service_ABCD, [], (\<lambda>i. rs' (i + k)))))
      \<or> (walk path4 100 (Service_init path4) [(''B'', ''C''), (''C'', ''D'')] track_AB ''B'' rs'
            = None \<and> \<not> fair rs')"
    by (intro allI walk_stage [OF path4_side(3) path4_side(10) path4_nbrs_B _ path4_only(2) path4_tracks_built(1)
          path4_removed(2) a2]) simp
  show ?thesis
    by (rule walk_stage [OF path4_side(1) path4_side(9) path4_neighbours(1) _ path4_only(1) track_AB_built
          path4_removed(1) a1]) simp
qed



lemma walk_from_D:
  "(\<exists>k. walk path4 100 (Service_init path4) (edges path4) (Track_init path4) ''D'' rs
         = Some (Inr (service_DCBA, [], (\<lambda>i. rs (i + k)))))
   \<or> (walk path4 100 (Service_init path4) (edges path4) (Track_init path4) ''D'' rs = None
      \<and> \<not> fair rs)"
proof -
  have d3: "\<forall>rs'. (\<exists>k. walk path4 100 (Service_init path4) [] track_DCBA ''A'' rs'
                 = Some (Inr (service_DCBA, [], (\<lambda>i. rs' (i + k)))))
      \<or> (walk path4 100 (Service_init path4) [] track_DCBA ''A'' rs' = None \<and> \<not> fair rs')"
  proof
    fix rs'
    have "walk path4 100 (Service_init path4) [] track_DCBA ''A'' rs'
        = Some (Inr (service_DCBA, [], (\<lambda>i. rs' (i + 0))))"
      using walk_stop [OF path4_side(8) path4_side(15) service_DCBA_built, of path4 rs'] by simp
    then show "(\<exists>k. walk path4 100 (Service_init path4) [] track_DCBA ''A'' rs'
                 = Some (Inr (service_DCBA, [], (\<lambda>i. rs' (i + k)))))
      \<or> (walk path4 100 (Service_init path4) [] track_DCBA ''A'' rs' = None \<and> \<not> fair rs')"
      by blast
  qed
  have d2: "\<forall>rs'. (\<exists>k. walk path4 100 (Service_init path4) [(''A'', ''B'')] track_DCB ''B'' rs'
                 = Some (Inr (service_DCBA, [], (\<lambda>i. rs' (i + k)))))
      \<or> (walk path4 100 (Service_init path4) [(''A'', ''B'')] track_DCB ''B'' rs' = None
         \<and> \<not> fair rs')"
    by (intro allI walk_stage [OF path4_side(6) path4_side(14) path4_nbrs_B _ path4_only(6) path4_tracks_built(5)
          path4_removed(6) d3]) simp
  have d1: "\<forall>rs'. (\<exists>k. walk path4 100 (Service_init path4) [(''A'', ''B''), (''B'', ''C'')]
                    track_DC ''C'' rs'
                 = Some (Inr (service_DCBA, [], (\<lambda>i. rs' (i + k)))))
      \<or> (walk path4 100 (Service_init path4) [(''A'', ''B''), (''B'', ''C'')] track_DC ''C'' rs'
            = None \<and> \<not> fair rs')"
    by (intro allI walk_stage [OF path4_side(5) path4_side(13) path4_neighbours(2) _ path4_only(5) path4_tracks_built(4)
          path4_removed(5) d2]) simp
  show ?thesis
    by (rule walk_stage [OF path4_side(2) path4_side(9) path4_neighbours(3) _ path4_only(4) path4_tracks_built(3)
          path4_removed(4) d1]) simp
qed

lemma path4_seed:
  "get_one_edge_node (edges path4) path4 (Service_init path4) rs
     = Inr (if even (rs 0) then ''A'' else ''D'', (\<lambda>i. rs (i + 1)))"
proof -
  have g: "get_one_edge_node (edges path4) path4 (Service_init path4) rs
      = Inr ([''A'', ''D''] ! (rs 0 mod 2), (\<lambda>i. rs (i + 1)))"
    unfolding get_one_edge_node_branches path4_neighbours(4) random_choice_def advance_def
    by (simp add: numeral_2_eq_2)
  show ?thesis
  proof (cases "even (rs 0)")
    case True
    then have "rs 0 mod 2 = 0" by (simp add: even_iff_mod_2_eq_zero)
    with g True show ?thesis by simp
  next
    case False
    then have "rs 0 mod 2 = 1" by (simp add: odd_iff_mod_2_eq_one)
    with g False show ?thesis by simp
  qed
qed

lemma path4_pool_ne: "edges path4 \<noteq> []" "int (length (tracks (Service_init path4))) < 1"
  by code_simp+

lemma build_path4:
  "(\<exists>rs'. build_tracks path4 1 100 (Service_init path4) (edges path4) rs
          = Some (Inr (service_ABCD, [], rs')))
   \<or> (\<exists>rs'. build_tracks path4 1 100 (Service_init path4) (edges path4) rs
          = Some (Inr (service_DCBA, [], rs')))
   \<or> (build_tracks path4 1 100 (Service_init path4) (edges path4) rs = None \<and> \<not> fair rs)"
proof -
  let ?rs1 = "\<lambda>i. rs (i + 1)"
  note b = build_tracks_step [OF path4_pool_ne path4_seed, of 100 rs]
  have f: "\<not> fair ?rs1 \<Longrightarrow> \<not> fair rs"
    using fair_shift [of rs 1] by blast
  show ?thesis
  proof (cases "even (rs 0)")
    case True
    from walk_from_A [of ?rs1] show ?thesis
    proof (elim disjE exE conjE)
      fix k
      assume "walk path4 100 (Service_init path4) (edges path4) (Track_init path4) ''A'' ?rs1
         = Some (Inr (service_ABCD, [], (\<lambda>i. ?rs1 (i + k))))"
      with b True have "build_tracks path4 1 100 (Service_init path4) (edges path4) rs
          = Some (Inr (service_ABCD, [], (\<lambda>i. ?rs1 (i + k))))"
        by (simp add: build_tracks_done)
      then show ?thesis by blast
    next
      assume "walk path4 100 (Service_init path4) (edges path4) (Track_init path4) ''A'' ?rs1
         = None" and "\<not> fair ?rs1"
      with b True f show ?thesis by simp
    qed
  next
    case False
    from walk_from_D [of ?rs1] show ?thesis
    proof (elim disjE exE conjE)
      fix k
      assume "walk path4 100 (Service_init path4) (edges path4) (Track_init path4) ''D'' ?rs1
         = Some (Inr (service_DCBA, [], (\<lambda>i. ?rs1 (i + k))))"
      with b False have "build_tracks path4 1 100 (Service_init path4) (edges path4) rs
          = Some (Inr (service_DCBA, [], (\<lambda>i. ?rs1 (i + k))))"
        by (simp add: build_tracks_done)
      then show ?thesis by blast
    next
      assume "walk path4 100 (Service_init path4) (edges path4) (Track_init path4) ''D'' ?rs1
         = None" and "\<not> fair ?rs1"
      with b False f show ?thesis by simp
    qed
  qed
qed

lemma fair_identity: "fair (\<lambda>i. i)"
proof -
  have "\<exists>k\<ge>n. even k" and "\<exists>k\<ge>n. odd k" for n :: nat
  proof -
    have "2 * n \<ge> n" and "even (2 * n)" by simp_all
    then show "\<exists>k\<ge>n. even k" by blast
    have "Suc (2 * n) \<ge> n" and "odd (Suc (2 * n))" by simp_all
    then show "\<exists>k\<ge>n. odd k" by blast
  qed
  then show ?thesis by (simp add: fair_def)
qed

lemma path4_result:
  "algo path4 1 100 1 rs = Some (Inr [service_ABCD])
   \<or> algo path4 1 100 1 rs = Some (Inr [service_DCBA])
   \<or> (algo path4 1 100 1 rs = None \<and> \<not> fair rs)"
proof -
  have a: "algo path4 1 100 1 rs =
      (case generate_service path4 1 100 rs of
         None \<Rightarrow> None
       | Some (Inl err) \<Rightarrow> Some (Inl err)
       | Some (Inr (s, rs')) \<Rightarrow> Some (Inr [s]))"
    by (simp add: algo_def split: option.splits sum.splits)
  from build_path4 [of rs] show ?thesis
  proof (elim disjE exE conjE)
    fix rs'
    assume "build_tracks path4 1 100 (Service_init path4) (edges path4) rs
          = Some (Inr (service_ABCD, [], rs'))"
    then have "generate_service path4 1 100 rs = Some (Inr (service_ABCD, rs'))"
      by (simp add: generate_service_def path4_optimised)
    with a show ?thesis by simp
  next
    fix rs'
    assume "build_tracks path4 1 100 (Service_init path4) (edges path4) rs
          = Some (Inr (service_DCBA, [], rs'))"
    then have "generate_service path4 1 100 rs = Some (Inr (service_DCBA, rs'))"
      by (simp add: generate_service_def path4_optimised)
    with a show ?thesis by simp
  next
    assume "build_tracks path4 1 100 (Service_init path4) (edges path4) rs = None"
      and "\<not> fair rs"
    then have "generate_service path4 1 100 rs = None \<and> \<not> fair rs"
      by (simp add: generate_service_def)
    with a show ?thesis by simp
  qed
qed


lemma path4_services:
  "tracks service_ABCD = [track_ABCD]" "tracks service_DCBA = [track_DCBA]"
  "time track_ABCD = 15" "time track_DCBA = 15"
  "service_time service_ABCD = 15" "service_time service_DCBA = 15"
  "percen_critical_edges_traversed service_ABCD = 1"
  "percen_critical_edges_traversed service_DCBA = 1"
  by (simp_all add: service_ABCD_def service_DCBA_def track_ABCD_def track_DCBA_def)

lemma path4_covered:
  "mset (map undirected (track_edges track_ABCD)) = mset (map undirected (edges path4))"
  "mset (map undirected (track_edges track_DCBA)) = mset (map undirected (edges path4))"
proof -
  show "mset (map undirected (track_edges track_ABCD)) = mset (map undirected (edges path4))"
    by (simp add: track_ABCD_def path4_edges)
  have "undirected (''D'', ''C'') = undirected (''C'', ''D'')"
    and "undirected (''C'', ''B'') = undirected (''B'', ''C'')"
    and "undirected (''B'', ''A'') = undirected (''A'', ''B'')"
    by (rule undirected_swap)+
  then show "mset (map undirected (track_edges track_DCBA)) = mset (map undirected (edges path4))"
    by (simp add: track_DCBA_def path4_edges add_mset_commute)
qed

text \<open>
  Claim C7. On the path of 4 nodes with 3 edges of weight 5 and the end station A
  critical, with at most 1 track of time at most 100 and 1 service to generate,
  \<open>algo\<close> returns, for every outcome of the random choices, a batch of exactly one
  service with exactly one track, which covers the 3 edges of the graph, with time 15
  and coverage fraction 1. The outcomes of the random choices are the fair sequences
  of draws: a choice between the two neighbours of a station does not give the same
  one for ever.
\<close>

theorem path4_batch:
  assumes "fair rs"
  shows "\<exists>s t. algo path4 1 100 1 rs = Some (Inr [s]) \<and> tracks s = [t]
           \<and> mset (map undirected (track_edges t)) = mset (map undirected (edges path4))
           \<and> time t = 15 \<and> service_time s = 15
           \<and> percen_critical_edges_traversed s = 1"
proof -
  from path4_result [of rs] assms
  consider "algo path4 1 100 1 rs = Some (Inr [service_ABCD])"
    | "algo path4 1 100 1 rs = Some (Inr [service_DCBA])"
    by (elim disjE conjE) simp_all
  then show ?thesis
  proof cases
    case 1
    with path4_services(1,3,5,7) path4_covered(1) show ?thesis
      by (intro exI [of _ service_ABCD] exI [of _ track_ABCD] conjI)
  next
    case 2
    with path4_services(2,4,6,8) path4_covered(2) show ?thesis
      by (intro exI [of _ service_DCBA] exI [of _ track_DCBA] conjI)
  qed
qed

theorem path4_batch_witness:
  "fair (\<lambda>i. i)
   \<and> (\<exists>s t. algo path4 1 100 1 (\<lambda>i. i) = Some (Inr [s]) \<and> tracks s = [t]
           \<and> mset (map undirected (track_edges t)) = mset (map undirected (edges path4))
           \<and> time t = 15 \<and> service_time s = 15
           \<and> percen_critical_edges_traversed s = 1)"
proof (rule conjI)
  show "fair (\<lambda>i. i)"
    by (rule fair_identity)
  show "\<exists>s t. algo path4 1 100 1 (\<lambda>i. i) = Some (Inr [s]) \<and> tracks s = [t]
           \<and> mset (map undirected (track_edges t)) = mset (map undirected (edges path4))
           \<and> time t = 15 \<and> service_time s = 15
           \<and> percen_critical_edges_traversed s = 1"
    by (rule path4_batch [OF fair_identity])
qed

lemma draws_first_shift:
  "(\<lambda>i. draws_first (i + k)) = draws_first" "(\<lambda>i. draws_first (Suc i)) = draws_first"
  by (simp_all add: draws_first_def)

text \<open>
  A sequence that is not fair: when every draw is the first element, the seed is A,
  the walk reaches B, and the neighbour loop of the model draws A, whose edge is
  traversed, at every turn.
\<close>

lemma constant_draws_never_return:
  "algo path4 1 100 1 draws_first = None"
proof -
  have seed: "get_one_edge_node (edges path4) path4 (Service_init path4) draws_first
      = Inr (''A'', draws_first)"
    using path4_seed [of draws_first] by (simp add: draws_first_shift) (simp add: draws_first_def)
  have "joined (edges path4) ''A'' ([''B''] ! (draws_first 0 mod length [''B'']))"
    by code_simp
  with get_neighbour_first_hit [where g = path4 and current_node = "''A''" and nbrs = "[''B'']"
      and pool = "edges path4" and rs = draws_first and k = 0] path4_neighbours(1)
  have n0: "get_neighbour_with_untraversed_edge (edges path4) path4 ''A'' draws_first
      = Some (Inr (''B'', draws_first))"
    by (simp add: draws_first_shift)
  have n1: "get_neighbour_with_untraversed_edge [(''B'', ''C''), (''C'', ''D'')] path4 ''B''
      draws_first = None"
    by (rule get_neighbour_no_hit [OF path4_nbrs_B]) (simp_all add: draws_first_def joined_def)
  have "walk path4 100 (Service_init path4) (edges path4) (Track_init path4) ''A'' draws_first
      = walk path4 100 (Service_init path4) [(''B'', ''C''), (''C'', ''D'')] track_AB ''B''
          draws_first"
    using walk_consume [OF path4_side(1) path4_side(9) n0 track_AB_built]
    by (simp add: path4_removed(1))
  also have "\<dots> = None"
    using path4_side(3) path4_side(10) n1 by (rule walk_consume_None)
  finally have "build_tracks path4 1 100 (Service_init path4) (edges path4) draws_first = None"
    using build_tracks_step [OF path4_pool_ne seed, of 100] by simp
  then have "generate_service path4 1 100 draws_first = None"
    by (simp add: generate_service_def)
  then show ?thesis
    by (simp add: algo_def)
qed

lemma path4_tracks_cover:
  "track_edges track_ABCD = edges path4"
  "track_edges track_DCBA = reversed_edges (edges path4)"
  by code_simp+

section \<open>The mutators of Service\<close>

text \<open>
  \<open>add_track\<close> and \<open>remove_track\<close> keep the total time equal to the sum of the
  times of the tracks and recompute the score from the current coverage fraction,
  number of tracks and total time; the merge pass changes a service through them
  only. The prune pass assigns the list of tracks itself.
\<close>

lemma service_time_add_traversed [simp]:
  "service_time (add_traversed_critical_edge s t) = service_time s"
  by (simp add: add_traversed_critical_edge_def)

lemma service_time_remove_traversed [simp]:
  "service_time (remove_traversed_critical_edge s) = service_time s"
proof -
  have "service_time (fold (\<lambda>t s'. add_traversed_critical_edge s' t) ts s') = service_time s'"
    for ts s'
    by (induction ts arbitrary: s') simp_all
  then show ?thesis by (simp add: remove_traversed_critical_edge_def)
qed

lemma update_scores_Inr:
  assumes "update_scores s = Inr s'"
  shows "tracks s' = tracks s" and "service_time s' = service_time s"
    and "score s' = get_score (percen_critical_edges_traversed s') (length (tracks s'))
                      (service_time s')"
proof -
  from assms obtain p
    where "s' = s\<lparr>percen_critical_edges_traversed := p,
                    score := get_score p (length (tracks s)) (service_time s)\<rparr>"
    by (cases "get_percentage_critical_edges_traversed (critical_edges_traversed s)
                 (all_critical_edges s)") (auto simp: update_scores_def)
  then show "tracks s' = tracks s" and "service_time s' = service_time s"
    and "score s' = get_score (percen_critical_edges_traversed s') (length (tracks s'))
                      (service_time s')"
    by simp_all
qed

lemma add_track_keeps_invariant:
  assumes "add_track s t = Inr s'" and "service_time s = sum_list (map time (tracks s))"
  shows "service_time s' = sum_list (map time (tracks s'))
         \<and> score s' = get_score (percen_critical_edges_traversed s') (length (tracks s'))
                       (service_time s')"
proof -
  let ?s3 = "(add_traversed_critical_edge (s\<lparr>tracks := tracks s @ [t]\<rparr>) t)
               \<lparr>service_time := service_time s + time t\<rparr>"
  from assms(1) have u: "update_scores ?s3 = Inr s'"
    by (simp add: add_track_def Let_def)
  from update_scores_Inr [OF u] assms(2) show ?thesis by simp
qed

lemma sum_list_without_nth:
  assumes "k < length ts"
  shows "sum_list (map time (take k ts @ drop (Suc k) ts)) = sum_list (map time ts) - time (ts ! k)"
proof -
  have "sum_list (map time ts) = sum_list (map time (take k ts @ ts ! k # drop (Suc k) ts))"
    using assms by (simp only: id_take_nth_drop [symmetric])
  then show ?thesis by simp
qed

lemma remove_track_keeps_invariant:
  assumes "remove_track s k = Inr s'" and "service_time s = sum_list (map time (tracks s))"
  shows "service_time s' = sum_list (map time (tracks s'))
         \<and> score s' = get_score (percen_critical_edges_traversed s') (length (tracks s'))
                       (service_time s')"
proof -
  let ?s3 = "(remove_traversed_critical_edge
                (s\<lparr>tracks := take k (tracks s) @ drop (Suc k) (tracks s)\<rparr>))
               \<lparr>service_time := service_time s - time (tracks s ! k)\<rparr>"
  note k = remove_track_Inr(1) [OF assms(1)]
  with assms(1) have u: "update_scores ?s3 = Inr s'"
    by (simp add: remove_track_def Let_def)
  from update_scores_Inr [OF u] assms(2) sum_list_without_nth [OF k] show ?thesis by simp
qed

section \<open>The times of the tracks of a generated service\<close>

text \<open>
  Every track that the construction adds to a service has the time that
  \<open>update_time\<close> computes from its edges, and the prune pass only drops tracks:
  the services that \<open>algo\<close> passes to \<open>combine_tracks\<close> satisfy the hypothesis of
  the theorem on the times of merged tracks.
\<close>

lemma update_time_timed:
  assumes "update_time g t = Inr t'"
  shows "sum_weights (G g) (track_edges t') 0 = Inr (time t')"
  using update_time_Inr(1,3) [OF assms] by simp

lemma add_edge_timed:
  assumes "add_edge g t e = Inr (t', printed)"
    and "sum_weights (G g) (track_edges t) 0 = Inr (time t)"
  shows "sum_weights (G g) (track_edges t') 0 = Inr (time t')"
proof (cases "track_edges t = [] \<or> snd (last (track_edges t)) = fst e")
  case True
  with assms(1) have "update_time g (t\<lparr>track_edges := track_edges t @ [e]\<rparr>) = Inr t'"
    by (cases "update_time g (t\<lparr>track_edges := track_edges t @ [e]\<rparr>)")
       (simp_all add: add_edge_def)
  then show ?thesis by (rule update_time_timed)
next
  case False
  with assms(1) have "t' = t" by (simp add: add_edge_def)
  with assms(2) show ?thesis by simp
qed

lemma edge_again_untraversed_timed:
  assumes "edge_again_untraversed g t pool = Inr (t', pool')"
  shows "sum_weights (G g) (track_edges t') 0 = Inr (time t')"
proof -
  from assms have "update_time g (t\<lparr>track_edges := butlast (track_edges t)\<rparr>) = Inr t'"
    by (cases "track_edges t = []";
        cases "update_time g (t\<lparr>track_edges := butlast (track_edges t)\<rparr>)")
       (simp_all add: edge_again_untraversed_def remove_last_edge_def)
  then show ?thesis by (rule update_time_timed)
qed

lemma walk_times:
  assumes "walk g max_track_length s pool t current_node rs = Some y"
  shows "y = Inr (s', pool', rs')
         \<longrightarrow> list_all (\<lambda>t. sum_weights (G g) (track_edges t) 0 = Inr (time t)) (tracks s)
         \<longrightarrow> sum_weights (G g) (track_edges t) 0 = Inr (time t)
         \<longrightarrow> list_all (\<lambda>t. sum_weights (G g) (track_edges t) 0 = Inr (time t)) (tracks s')"
  using assms
proof (induction g max_track_length s pool t current_node rs y
    rule: walk.raw_induct [rotated 1, consumes 1])
  case (1 w g max_track_length s pool t current_node rs y)
  show ?case
  proof (intro impI)
    let ?timed = "\<lambda>t. sum_weights (G g) (track_edges t) 0 = Inr (time t)"
    assume y: "y = Inr (s', pool', rs')" and ts: "list_all ?timed (tracks s)" and tt: "?timed t"
    let ?remaining = "filter (\<lambda>e. current_node = fst e \<or> current_node = snd e) pool"
    consider (stop) "?remaining = []" "\<not> time t > max_track_length"
      | (stop_overflow) "?remaining = []" "time t > max_track_length"
      | (overflow) "?remaining \<noteq> []" "time t > max_track_length"
      | (consume) "?remaining \<noteq> []" "\<not> time t > max_track_length"
      by blast
    then show "list_all ?timed (tracks s')"
    proof cases
      case stop
      with 1(2) y have "add_track s t = Inr s'"
        by (auto split: sum.splits)
      from add_track_Inr [OF this] ts tt show ?thesis by simp
    next
      case stop_overflow
      with 1(2) y obtain t1 where e: "edge_again_untraversed g t pool = Inr (t1, pool')"
        and a: "add_track s t1 = Inr s'"
        by (auto split: sum.splits)
      from add_track_Inr [OF a] ts edge_again_untraversed_timed [OF e] show ?thesis by simp
    next
      case overflow
      with 1(2) y obtain t1 pool1 s1
        where e: "edge_again_untraversed g t pool = Inr (t1, pool1)"
        and a: "add_track s t1 = Inr s1"
        and w: "w g max_track_length s1 pool1 (Track_init g) current_node rs = Some y"
        by (auto split: sum.splits)
      have "list_all ?timed (tracks s1)"
        using add_track_Inr [OF a] ts edge_again_untraversed_timed [OF e] by simp
      moreover have "?timed (Track_init g)"
        by (simp add: Track_init_def)
      ultimately show ?thesis
        using 1(1) [OF w] y by simp
    next
      case consume
      with 1(2) y obtain nb rs1 t1 printed
        where a: "add_edge g t (current_node, nb) = Inr (t1, printed)"
        and w: "w g max_track_length s (remove_traversed current_node nb pool) t1 nb rs1 = Some y"
        by (auto split: sum.splits option.splits)
      from add_edge_timed [OF a tt] ts 1(1) [OF w] y show ?thesis by simp
    qed
  qed
qed

lemma build_tracks_times:
  assumes "build_tracks g max_track_amount max_track_length s pool rs = Some y"
  shows "y = Inr (s', pool', rs')
         \<longrightarrow> list_all (\<lambda>t. sum_weights (G g) (track_edges t) 0 = Inr (time t)) (tracks s)
         \<longrightarrow> list_all (\<lambda>t. sum_weights (G g) (track_edges t) 0 = Inr (time t)) (tracks s')"
  using assms
proof (induction g max_track_amount max_track_length s pool rs y
    rule: build_tracks.raw_induct [rotated 1, consumes 1])
  case (1 b g max_track_amount max_track_length s pool rs y)
  show ?case
  proof (intro impI)
    let ?timed = "\<lambda>t. sum_weights (G g) (track_edges t) 0 = Inr (time t)"
    assume y: "y = Inr (s', pool', rs')" and ts: "list_all ?timed (tracks s)"
    show "list_all ?timed (tracks s')"
    proof (cases "pool \<noteq> [] \<and> int (length (tracks s)) < max_track_amount")
      case False
      with 1(2) y ts show ?thesis by auto
    next
      case True
      with 1(2) y obtain current_node rs1 s1 pool1 rs2
        where w: "walk g max_track_length s pool (Track_init g) current_node rs1
                    = Some (Inr (s1, pool1, rs2))"
        and b: "b g max_track_amount max_track_length s1 pool1 rs2 = Some y"
        by (auto split: sum.splits option.splits)
      have "?timed (Track_init g)"
        by (simp add: Track_init_def)
      with walk_times [OF w] ts have "list_all ?timed (tracks s1)" by simp
      with 1(1) [OF b] y show ?thesis by simp
    qed
  qed
qed

lemma generated_track_times:
  assumes "build_tracks g max_track_amount max_track_length (Service_init g) (edges g) rs
             = Some (Inr (s, pool, rs'))"
  shows "list_all (\<lambda>t. sum_weights (G g) (track_edges t) 0 = Inr (time t))
           (tracks (remove_unnecessary_tracks s g))"
proof -
  have "list_all (\<lambda>t. sum_weights (G g) (track_edges t) 0 = Inr (time t)) (tracks s)"
    using build_tracks_times [OF assms] by (simp add: Service_init_def)
  then show ?thesis
    by (simp add: remove_unnecessary_tracks_def list_all_iff)
qed

end
